theory Spec2Isabelle
  imports Complex_Main "HOL-Library.Sublist"
begin

section \<open>AirDrop: gate evaluation, artifact matching, link extraction, comment composing\<close>

text \<open>
  A shallow embedding of the decision logic of the AirDrop hand-off scripts
  (\<^verbatim>\<open>post-qa.js\<close>, \<^verbatim>\<open>sharepoint.js\<close>, \<^verbatim>\<open>api/dispatch.js\<close>).
  The sources hold several revisions of each script; a definition names the
  revision it embeds by the place of the function in the sources:
  \<^item> \<^verbatim>\<open>src/sharepoint.js\<close> lines 1-158: \<^verbatim>\<open>sharepoint.js\<close> without drill-down (suffix \<open>_sp\<close>);
  \<^item> \<^verbatim>\<open>src/unnamed/part_000\<close>: \<^verbatim>\<open>sharepoint.js\<close> with subfolder drill-down (suffix \<open>_p0\<close>);
  \<^item> \<^verbatim>\<open>src/unnamed/part_001\<close>: \<^verbatim>\<open>post-qa.js\<close> with the regular-expression re-check (suffix \<open>_p1\<close>);
  \<^item> \<^verbatim>\<open>src/unnamed/part_002\<close> lines 1-355: the first \<^verbatim>\<open>post-qa.js\<close> (suffix \<open>_v1\<close>);
  \<^item> \<^verbatim>\<open>src/unnamed/part_002\<close> lines 357-845: \<^verbatim>\<open>post-qa.js\<close> with drill-down (suffix \<open>_p2\<close>);
  \<^item> the three revisions of \<^verbatim>\<open>api/dispatch.js\<close> (suffixes \<open>_a\<close>, \<open>_b\<close>, \<open>_c\<close>).
  A function that is the same text in several revisions is defined once.
\<close>

subsection \<open>Characters and strings\<close>

text \<open>
  A JavaScript string is a sequence of UTF-16 code units. The model is the type
  \<open>string\<close>: every \<open>char\<close> stands for the code unit of the same value, so the
  strings covered are those whose code units are below 256 (Basic Latin and Latin-1
  Supplement). On this range \<^verbatim>\<open>toLowerCase\<close> maps character to character, the class
  \<^verbatim>\<open>\s\<close> (which is also what \<^verbatim>\<open>trim\<close> strips) holds TAB, LF, VT, FF, CR, SPACE and
  NO-BREAK SPACE, \<^verbatim>\<open>\w\<close> is \<^verbatim>\<open>[A-Za-z0-9_]\<close> and \<^verbatim>\<open>\d\<close> is \<^verbatim>\<open>[0-9]\<close>.
\<close>

definition code_of :: "char \<Rightarrow> nat" where
  "code_of c = of_char c"

definition is_space :: "char \<Rightarrow> bool" where
  "is_space c = (code_of c \<in> {9, 10, 11, 12, 13, 32, 160})"

definition is_digit :: "char \<Rightarrow> bool" where
  "is_digit c = (48 \<le> code_of c \<and> code_of c \<le> 57)"

definition is_word :: "char \<Rightarrow> bool" where
  "is_word c =
     (let n = code_of c in
      (48 \<le> n \<and> n \<le> 57) \<or> (65 \<le> n \<and> n \<le> 90) \<or> n = 95 \<or> (97 \<le> n \<and> n \<le> 122))"

text \<open>
  \<^verbatim>\<open>toLowerCase\<close> on one code unit: \<^verbatim>\<open>A-Z\<close> and the Latin-1 capitals U+00C0 to U+00DE
  (without the multiplication sign U+00D7) move up by 32, everything else stays.
\<close>

definition lower_char :: "char \<Rightarrow> char" where
  "lower_char c =
     (let n = code_of c in
      if (65 \<le> n \<and> n \<le> 90) \<or> (192 \<le> n \<and> n \<le> 222 \<and> n \<noteq> 215)
      then char_of (n + 32) else c)"

definition toLowerCase :: "string \<Rightarrow> string" where
  "toLowerCase s = map lower_char s"

definition trim :: "string \<Rightarrow> string" where
  "trim s = rev (dropWhile is_space (rev (dropWhile is_space s)))"

definition startsWith :: "string \<Rightarrow> string \<Rightarrow> bool" where
  "startsWith s p = prefix p s"

definition endsWith :: "string \<Rightarrow> string \<Rightarrow> bool" where
  "endsWith s p = suffix p s"

definition includes_str :: "string \<Rightarrow> string \<Rightarrow> bool" where
  "includes_str s p = sublist p s"

text \<open>
  \<^verbatim>\<open>s.replace(/[class]+/g, r)\<close>: every maximal run of characters of the class is
  replaced by \<open>r\<close>. \<^verbatim>\<open>s.replace(/[class]/g, '')\<close> and \<^verbatim>\<open>s.replace(/[class]+/g, '')\<close>
  both delete the characters of the class.
\<close>

function replace_runs :: "(char \<Rightarrow> bool) \<Rightarrow> string \<Rightarrow> string \<Rightarrow> string" where
  "replace_runs p r [] = []"
| "replace_runs p r (c # cs) =
     (if p c then r @ replace_runs p r (dropWhile p cs) else c # replace_runs p r cs)"
  by pat_completeness auto
termination
  by (relation "measure (\<lambda>(p, r, s). length s)") (auto simp: length_dropWhile_le less_Suc_eq_le)

definition remove_chars :: "(char \<Rightarrow> bool) \<Rightarrow> string \<Rightarrow> string" where
  "remove_chars p s = filter (\<lambda>c. \<not> p c) s"

subsection \<open>Normalization\<close>

text \<open>
  \<^verbatim>\<open>normalize\<close> of \<^verbatim>\<open>post-qa.js\<close> (part_001 line 155, part_002 line 459) and of
  \<^verbatim>\<open>sharepoint.js\<close> (part_000 line 29):
  \<^verbatim>\<open>String(s).toLowerCase().replace(/\s+/g, ' ').replace(/[^\w\s]/g, '').trim()\<close>.
\<close>

definition normalize_str :: "string \<Rightarrow> string" where
  "normalize_str s =
     trim (remove_chars (\<lambda>c. \<not> (is_word c \<or> is_space c))
            (replace_runs is_space '' '' (toLowerCase s)))"

text \<open>
  \<^verbatim>\<open>norm\<close>, local to \<^verbatim>\<open>findExcelForTask\<close> in src/sharepoint.js line 103:
  lower case, en and em dash to hyphen, runs of underscores and whitespace to one
  space, delete everything but \<^verbatim>\<open>\w\<close>, dot, hyphen and space, trim. The dashes U+2013
  and U+2014 are not characters of the modelled range, so that step changes nothing
  here.
\<close>

definition fold_dashes :: "string \<Rightarrow> string" where
  "fold_dashes s = s"

definition norm_keep :: "char \<Rightarrow> bool" where
  "norm_keep c = (is_word c \<or> c = CHR ''.'' \<or> c = CHR ''-'' \<or> c = CHR '' '')"

definition norm_str :: "string \<Rightarrow> string" where
  "norm_str s =
     trim (remove_chars (\<lambda>c. \<not> norm_keep c)
            (replace_runs (\<lambda>c. c = CHR ''_'' \<or> is_space c) '' ''
               (fold_dashes (toLowerCase s))))"

subsection \<open>Values of dynamic shape and custom fields\<close>

text \<open>
  A value read from the tracker's JSON. \<open>JNum\<close> carries the exact value of the
  number, \<open>JObj\<close> stands for any object or array; only strict equality and
  \<^verbatim>\<open>typeof\<close> are applied to these values.
\<close>

datatype jsval = JUndefined | JNull | JBool bool | JNum rat | JStr string | JObj

record custom_field =
  cf_id :: "string option"
  cf_name :: "string option"
  cf_value :: jsval

record status_obj =
  st_status :: "string option"
  st_name :: "string option"

record task =
  t_status :: "status_obj option"
  custom_fields :: "custom_field list"

text \<open>\<^verbatim>\<open>a || b\<close> for an optional string \<open>a\<close>: absent and empty are falsy.\<close>

definition str_or :: "string option \<Rightarrow> string \<Rightarrow> string" where
  "str_or a b = (case a of None \<Rightarrow> b | Some s \<Rightarrow> if s = [] then b else s)"

text \<open>
  \<^verbatim>\<open>(task.status && (task.status.status || task.status.name)) || ""\<close>
  (part_001 line 296, part_002 line 668).
\<close>

definition status_of :: "task \<Rightarrow> string" where
  "status_of t =
     (case t_status t of None \<Rightarrow> [] | Some so \<Rightarrow> str_or (st_status so) (str_or (st_name so) []))"

text \<open>\<^verbatim>\<open>findCustomField\<close> (part_001 line 175, part_002 line 538): by id or by name, case-insensitive.\<close>

definition findCustomField :: "task \<Rightarrow> string \<Rightarrow> custom_field option" where
  "findCustomField t target =
     (let needle = toLowerCase (trim target) in
      find (\<lambda>cf.
              (case cf_id cf of None \<Rightarrow> False | Some i \<Rightarrow> i \<noteq> [] \<and> toLowerCase i = needle) \<or>
              (case cf_name cf of None \<Rightarrow> False | Some n \<Rightarrow> n \<noteq> [] \<and> toLowerCase (trim n) = needle))
           (custom_fields t))"

text \<open>
  \<^verbatim>\<open>isCheckboxChecked\<close> (part_001 line 187, part_002 line 549). The argument is
  \<open>None\<close> when no field was found; a field without \<^verbatim>\<open>value\<close> has \<open>JUndefined\<close>.
\<close>

definition isCheckboxChecked :: "custom_field option \<Rightarrow> bool" where
  "isCheckboxChecked cfObj =
     (let v = (case cfObj of None \<Rightarrow> JUndefined | Some cf \<Rightarrow> cf_value cf) in
      if v = JBool True \<or> v = JNum 1 then True
      else (case v of
              JStr str \<Rightarrow>
                (let s = toLowerCase (trim str) in
                 s = ''true'' \<or> s = ''1'' \<or> s = ''yes'' \<or> s = ''checked'' \<or> s = ''on'')
            | _ \<Rightarrow> False))"

text \<open>
  \<^verbatim>\<open>isCheckboxChecked\<close> of the first \<^verbatim>\<open>post-qa.js\<close> (part_002 line 150):
  \<^verbatim>\<open>cf && (cf.value === true || cf.value === 1 || cf.value === '1')\<close>, read for its
  truthiness as the caller does.
\<close>

definition isCheckboxChecked_v1 :: "custom_field option \<Rightarrow> bool" where
  "isCheckboxChecked_v1 cf =
     (case cf of
        None \<Rightarrow> False
      | Some f \<Rightarrow> cf_value f = JBool True \<or> cf_value f = JNum 1 \<or> cf_value f = JStr ''1'')"

subsection \<open>The gate\<close>

text \<open>
  The first part of \<^verbatim>\<open>run\<close> (part_001 lines 288-353, part_002 lines 647-717). The
  tracker is a function from the number of the \<^verbatim>\<open>cuGet\<close> call to its outcome,
  \<open>None\<close> when the call throws; what the run does to the outside is recorded as a
  list of events. The text of the failure comment starts with an emoji (U+1FA82), kept
  as its UTF-8 bytes; no function inspects it. In the file of part_001 that literal is
  stored garbled (the same bytes read in another encoding); the model takes the
  literal of part_002 for both revisions.
\<close>

datatype event = CuGet | Sleep nat | CuPostComment string

datatype gate_outcome = GatePassed | GateFailed | RunError

record gate_config =
  requiredStatus :: string
  passedQA_field :: string
  postGateFailureComment :: bool

record gate_result =
  outcome :: gate_outcome
  statusNow :: string
  statusOk :: bool
  passedQA :: bool
  events :: "event list"

definition parachute :: string where
  "parachute = [CHR 0xF0, CHR 0x9F, CHR 0xAA, CHR 0x82]"

definition failMsg :: "string \<Rightarrow> string \<Rightarrow> string" where
  "failMsg required status_now =
     parachute @ '' AirDrop Status: Fail. Status must be ['' @ required @
     ''] and Passed QA must be checked. Current Status: ['' @
     (if status_now = [] then ''Unknown'' else status_now) @ ''].''"

text \<open>The final decision (part_001 line 337, part_002 line 704).\<close>

definition final_decision :: "gate_config \<Rightarrow> string \<Rightarrow> bool \<Rightarrow> bool \<Rightarrow> event list \<Rightarrow> gate_result" where
  "final_decision cfg status_now status_ok passed evs =
     (if \<not> status_ok \<or> \<not> passed
      then \<lparr>outcome = GateFailed, statusNow = status_now, statusOk = status_ok, passedQA = passed,
             events = evs @ (if postGateFailureComment cfg
                             then [CuPostComment (failMsg (requiredStatus cfg) status_now)] else [])\<rparr>
      else \<lparr>outcome = GatePassed, statusNow = status_now, statusOk = status_ok, passedQA = passed,
             events = evs\<rparr>)"

text \<open>
  When the re-check fires. part_002 line 691 compares the normalized status with the
  normalized labels \<^verbatim>\<open>"QA"\<close> and \<^verbatim>\<open>"QA (Dev)"\<close>; part_001 line 323 tests the raw
  status against \<^verbatim>\<open>/^qa(?:\s*\(dev\))?$/i\<close>.
\<close>

definition pending_p2 :: "string \<Rightarrow> bool" where
  "pending_p2 status_now =
     (normalize_str status_now = normalize_str ''QA'' \<or> normalize_str status_now = normalize_str ''QA (Dev)'')"

definition pending_p1 :: "string \<Rightarrow> bool" where
  "pending_p1 status_now =
     (let l = toLowerCase status_now in
      startsWith l ''qa'' \<and> (drop 2 l = [] \<or> dropWhile is_space (drop 2 l) = ''(dev)''))"

definition run_gate :: "(string \<Rightarrow> bool) \<Rightarrow> gate_config \<Rightarrow> (nat \<Rightarrow> task option) \<Rightarrow> gate_result" where
  "run_gate pending cfg cuGet =
     (case cuGet 0 of
        None \<Rightarrow> \<lparr>outcome = RunError, statusNow = [], statusOk = False, passedQA = False,
                 events = [CuGet]\<rparr>
      | Some t \<Rightarrow>
          (let status_now = status_of t;
               status_ok = (normalize_str status_now = normalize_str (requiredStatus cfg));
               cfPassed = findCustomField t (passedQA_field cfg);
               passed = isCheckboxChecked cfPassed
           in if \<not> status_ok \<and> passed \<and> pending status_now
              then (case cuGet 1 of
                      None \<Rightarrow> \<lparr>outcome = RunError, statusNow = status_now, statusOk = status_ok,
                               passedQA = passed, events = [CuGet, Sleep 1500, CuGet]\<rparr>
                    | Some t2 \<Rightarrow>
                        (let status_now2 = status_of t2;
                             status_ok2 = (normalize_str status_now2 = normalize_str (requiredStatus cfg))
                         in final_decision cfg status_now2 status_ok2 passed
                              [CuGet, Sleep 1500, CuGet]))
              else final_decision cfg status_now status_ok passed [CuGet]))"

definition run_gate_p1 :: "gate_config \<Rightarrow> (nat \<Rightarrow> task option) \<Rightarrow> gate_result" where
  "run_gate_p1 = run_gate pending_p1"

definition run_gate_p2 :: "gate_config \<Rightarrow> (nat \<Rightarrow> task option) \<Rightarrow> gate_result" where
  "run_gate_p2 = run_gate pending_p2"

subsection \<open>Spreadsheet selection\<close>

text \<open>
  The test \<^verbatim>\<open>/\.xlsx?$/i\<close> on a name (src/sharepoint.js line 101, part_000 line 149)
  and \<^verbatim>\<open>/preview/i\<close> (src/sharepoint.js line 126, part_000 line 166). Without the
  \<^verbatim>\<open>u\<close> flag a letter of the pattern matches its two ASCII cases only, which on the
  modelled range is equality after \<^verbatim>\<open>toLowerCase\<close>.
\<close>

definition isExcel :: "string \<Rightarrow> bool" where
  "isExcel n = (let l = toLowerCase n in endsWith l ''.xls'' \<or> endsWith l ''.xlsx'')"

definition has_preview :: "string \<Rightarrow> bool" where
  "has_preview n = includes_str (toLowerCase n) ''preview''"

text \<open>
  An entry as \<^verbatim>\<open>listFolderItems\<close> of src/sharepoint.js (line 63) returns it. Every
  driveItem of the Graph listing has a name, so the name is a string.
\<close>

record sp_item =
  sp_id :: string
  sp_driveId :: string
  sp_name :: string
  sp_mime :: string
  sp_isFolder :: bool

text \<open>\<^verbatim>\<open>s.replace(/\.xlsx?$/, '')\<close> (src/sharepoint.js line 115), applied to a lower-case name.\<close>

definition strip_xls_lower :: "string \<Rightarrow> string" where
  "strip_xls_lower s =
     (if endsWith s ''.xlsx'' then take (length s - 5) s
      else if endsWith s ''.xls'' then take (length s - 4) s
      else s)"

text \<open>\<^verbatim>\<open>findExcelForTask\<close> of src/sharepoint.js (lines 100-131).\<close>

definition findExcelForTask_sp :: "sp_item list \<Rightarrow> string \<Rightarrow> sp_item option" where
  "findExcelForTask_sp items taskTitle =
     (let base = norm_str taskTitle in
      case find (\<lambda>f. \<not> sp_isFolder f \<and> isExcel (sp_name f) \<and>
                      strip_xls_lower (norm_str (sp_name f)) = base) items of
        Some exact \<Rightarrow> Some exact
      | None \<Rightarrow>
         (case find (\<lambda>f. \<not> sp_isFolder f \<and> isExcel (sp_name f) \<and>
                          startsWith (norm_str (sp_name f)) (base @ '' '')) items of
            Some starts \<Rightarrow> Some starts
          | None \<Rightarrow>
             (case find (\<lambda>f. \<not> sp_isFolder f \<and> isExcel (sp_name f) \<and> has_preview (sp_name f))
                     items of
                Some preview \<Rightarrow> Some preview
              | None \<Rightarrow> find (\<lambda>f. \<not> sp_isFolder f \<and> isExcel (sp_name f)) items)))"

text \<open>
  A driveItem as part_000 keeps it (line 104): the raw Graph item. \<open>gi_file\<close> is the
  \<^verbatim>\<open>file\<close> facet, given by its \<^verbatim>\<open>mimeType\<close> (empty when the facet has none) and
  \<open>None\<close> when the item has no such facet; \<open>gi_folder\<close> says whether the item has a
  \<^verbatim>\<open>folder\<close> facet.
\<close>

record graph_item =
  gi_id :: string
  gi_driveId :: string
  gi_name :: string
  gi_file :: "string option"
  gi_folder :: bool

definition isFile :: "graph_item \<Rightarrow> bool" where
  "isFile it = (gi_file it \<noteq> None)"

definition isFolder :: "graph_item \<Rightarrow> bool" where
  "isFolder it = gi_folder it"

text \<open>\<^verbatim>\<open>n.replace(/\.(xlsx?|XLSX?)$/, '')\<close> (part_000 line 155): case-sensitive, two spellings.\<close>

definition strip_xls_p0 :: "string \<Rightarrow> string" where
  "strip_xls_p0 n =
     (if endsWith n ''.xlsx'' \<or> endsWith n ''.XLSX'' then take (length n - 5) n
      else if endsWith n ''.xls'' \<or> endsWith n ''.XLS'' then take (length n - 4) n
      else n)"

definition base_p0 :: "string \<Rightarrow> string" where
  "base_p0 n = normalize_str (strip_xls_p0 n)"

text \<open>\<^verbatim>\<open>findExcelForTask\<close> of part_000 (lines 144-171).\<close>

definition findExcelForTask_p0 :: "graph_item list \<Rightarrow> string \<Rightarrow> graph_item option" where
  "findExcelForTask_p0 items taskTitle =
     (let want = normalize_str taskTitle;
          excels = filter (\<lambda>it. isFile it \<and> isExcel (gi_name it)) items
      in case excels of
           [] \<Rightarrow> None
         | first # _ \<Rightarrow>
            (case find (\<lambda>f. base_p0 (gi_name f) = want) excels of
               Some hit \<Rightarrow> Some hit
             | None \<Rightarrow>
                (case find (\<lambda>f. startsWith (base_p0 (gi_name f)) (want @ '' '')) excels of
                   Some hit \<Rightarrow> Some hit
                 | None \<Rightarrow>
                    (case find (\<lambda>f. has_preview (gi_name f)) excels of
                       Some hit \<Rightarrow> Some hit
                     | None \<Rightarrow> Some first))))"

text \<open>
  The selection as the specification words it, over any kind of entry: the candidates
  are the entries that pass the type filter; the tiers are tried in order and each
  takes the first candidate of the listing that satisfies it.
\<close>

fun first_of_tiers :: "('a \<Rightarrow> bool) list \<Rightarrow> 'a list \<Rightarrow> 'a option" where
  "first_of_tiers [] cands = None"
| "first_of_tiers (P # Ps) cands =
     (case find P cands of Some f \<Rightarrow> Some f | None \<Rightarrow> first_of_tiers Ps cands)"

definition spec_select ::
  "('a \<Rightarrow> bool) \<Rightarrow> ('a \<Rightarrow> string) \<Rightarrow> (string \<Rightarrow> string) \<Rightarrow> (string \<Rightarrow> string) \<Rightarrow> 'a list \<Rightarrow> string \<Rightarrow> 'a option" where
  "spec_select is_spreadsheet name_of normalized minus_ext entries title =
     first_of_tiers
       [\<lambda>f. minus_ext (normalized (name_of f)) = normalized title,
        \<lambda>f. startsWith (normalized (name_of f)) (normalized title @ '' ''),
        \<lambda>f. has_preview (name_of f),
        \<lambda>f. True]
       (filter is_spreadsheet entries)"

subsection \<open>Link extraction\<close>

text \<open>
  The preview pattern (src/sharepoint.js line 150, part_000 line 217, part_001 line 52):
  \<^verbatim>\<open>/\bhttps?:\/\/[^\s)]+?(?:convert_action=convert_vpreview|convert_e=\d{6,}|convert_v=\d{6,})[^\s)]*/gi\<close>.
  A match starts at a word boundary with the scheme, and since the last part
  \<^verbatim>\<open>[^\s)]*\<close> is greedy it runs to the end of the token: up to the next whitespace
  or closing parenthesis. It exists when one of the three markers starts at least one
  character after the scheme, inside the token.
\<close>

definition tok_char :: "char \<Rightarrow> bool" where
  "tok_char c = (\<not> is_space c \<and> c \<noteq> CHR '')'')"

text \<open>A lower-case literal of the pattern, matched character by character at the head of \<open>s\<close>.\<close>

fun ci_prefix :: "string \<Rightarrow> string \<Rightarrow> bool" where
  "ci_prefix [] s = True"
| "ci_prefix (p # ps) [] = False"
| "ci_prefix (p # ps) (c # cs) = (if lower_char c = p then ci_prefix ps cs else False)"

definition six_digits :: "string \<Rightarrow> bool" where
  "six_digits s = (6 \<le> length (takeWhile is_digit s))"

definition marker_at :: "string \<Rightarrow> bool" where
  "marker_at s =
     (ci_prefix ''convert_action=convert_vpreview'' s \<or>
      (ci_prefix ''convert_e='' s \<and> six_digits (drop 10 s)) \<or>
      (ci_prefix ''convert_v='' s \<and> six_digits (drop 10 s)))"

fun has_marker :: "string \<Rightarrow> bool" where
  "has_marker [] = False"
| "has_marker (c # cs) = (marker_at (c # cs) \<or> has_marker cs)"

definition scheme_len :: "string \<Rightarrow> nat option" where
  "scheme_len s =
     (if ci_prefix ''https://'' s then Some 8
      else if ci_prefix ''http://'' s then Some 7
      else None)"

text \<open>The match that starts at the head of \<open>s\<close>, the word boundary apart.\<close>

definition match_here :: "string \<Rightarrow> string option" where
  "match_here s =
     (case scheme_len s of
        None \<Rightarrow> None
      | Some k \<Rightarrow>
          (case takeWhile tok_char (drop k s) of
             [] \<Rightarrow> None
           | c # tok \<Rightarrow> if has_marker tok then Some (take k s @ c # tok) else None))"

text \<open>
  \<^verbatim>\<open>text.match(RE) || []\<close> with the \<^verbatim>\<open>g\<close> flag: all matches from left to right,
  the search going on behind each match. \<open>skip\<close> counts the characters of the last
  match not yet passed, \<open>pw\<close> says whether the previous character is a word character.
\<close>

fun scan :: "nat \<Rightarrow> bool \<Rightarrow> string \<Rightarrow> string list" where
  "scan skip pw [] = []"
| "scan skip pw (c # cs) =
     (if 0 < skip then scan (skip - 1) (is_word c) cs
      else if pw then scan 0 (is_word c) cs
      else (case match_here (c # cs) of
              None \<Rightarrow> scan 0 (is_word c) cs
            | Some m \<Rightarrow> m # scan (length m - 1) (is_word c) cs))"

definition match_all :: "string \<Rightarrow> string list" where
  "match_all txt = scan 0 False txt"

text \<open>\<^verbatim>\<open>extractPreviewLinksFromText\<close> (part_001 line 207).\<close>

definition extractPreviewLinksFromText :: "string \<Rightarrow> string list" where
  "extractPreviewLinksFromText txt = map trim (match_all txt)"

text \<open>
  A JavaScript \<^verbatim>\<open>Set\<close> of strings, as the list of its elements in insertion order:
  \<^verbatim>\<open>add\<close> appends a string that is not yet an element. \<^verbatim>\<open>[...links]\<close> and
  \<^verbatim>\<open>Array.from(links)\<close> are that list.
\<close>

definition set_add :: "string list \<Rightarrow> string \<Rightarrow> string list" where
  "set_add links u = (if u \<in> set links then links else links @ [u])"

definition new_Set :: "string list \<Rightarrow> string list" where
  "new_Set xs = foldl set_add [] xs"

text \<open>
  The workbook as the spreadsheet reader delivers it: the sheets in the order of
  \<^verbatim>\<open>SheetNames\<close>, each with its grid of cells. A cell is given by its string form,
  \<open>None\<close> for \<^verbatim>\<open>null\<close> or \<^verbatim>\<open>undefined\<close>.
\<close>

type_synonym cell = "string option"
type_synonym sheet = "cell list list"
type_synonym workbook = "(string \<times> sheet) list"

text \<open>\<^verbatim>\<open>String(cell ?? '')\<close> (part_000 line 223).\<close>

definition cell_text :: "cell \<Rightarrow> string" where
  "cell_text c = (case c of None \<Rightarrow> [] | Some s \<Rightarrow> s)"

text \<open>
  \<^verbatim>\<open>extractPreviewLinksFromXlsx\<close> of src/sharepoint.js (lines 145-158). The rendering
  \<^verbatim>\<open>XLSX.utils.sheet_to_csv(ws, { FS: '\t' })\<close> belongs to the spreadsheet library and
  is a parameter.
\<close>

definition extractPreviewLinksFromXlsx_sp :: "(sheet \<Rightarrow> string) \<Rightarrow> workbook \<Rightarrow> string list" where
  "extractPreviewLinksFromXlsx_sp sheet_to_csv wb =
     foldl (\<lambda>links (sheetName, ws). foldl set_add links (map trim (match_all (sheet_to_csv ws))))
       [] wb"

text \<open>
  \<^verbatim>\<open>extractPreviewLinksFromXlsx\<close> of part_000 (lines 202-232): the sheet whose
  normalized name is that of \<^verbatim>\<open>'Preview Links'\<close>, else the first sheet; none when
  that name is empty.
\<close>

definition pick_sheet_p0 :: "workbook \<Rightarrow> (string \<times> sheet) option" where
  "pick_sheet_p0 wb =
     (case find (\<lambda>(n, ws). normalize_str n = normalize_str ''Preview Links'') wb of
        Some s \<Rightarrow> Some s
      | None \<Rightarrow> (case wb of [] \<Rightarrow> None | s # _ \<Rightarrow> if fst s = [] then None else Some s))"

definition extractPreviewLinksFromXlsx_p0 :: "workbook \<Rightarrow> string list" where
  "extractPreviewLinksFromXlsx_p0 wb =
     (case pick_sheet_p0 wb of
        None \<Rightarrow> []
      | Some (sheetName, json) \<Rightarrow>
          foldl (\<lambda>links row.
                   foldl (\<lambda>links cell. foldl set_add links (map trim (match_all (cell_text cell))))
                     links row)
            [] json)"

subsection \<open>Composing the comment\<close>

text \<open>
  The literal arrow U+2192 of the templates is kept as its UTF-8 bytes; no function
  inspects it (in the file of part_001 it is stored garbled, as the emoji is). \<open>show_nat\<close> is the decimal form \<^verbatim>\<open>${i + 1}\<close> of a positive integer
  and \<open>join\<close> is \<^verbatim>\<open>Array.prototype.join\<close>.
\<close>

definition arrow :: string where
  "arrow = [CHR 0xE2, CHR 0x86, CHR 0x92]"

definition nl :: string where
  "nl = [CHR 0x0A]"

function show_nat :: "nat \<Rightarrow> string" where
  "show_nat n =
     (if n < 10 then [char_of (48 + n)] else show_nat (n div 10) @ [char_of (48 + n mod 10)])"
  by pat_completeness auto
termination
  by (relation "measure (\<lambda>n. n)") auto

fun join :: "string \<Rightarrow> string list \<Rightarrow> string" where
  "join sep [] = []"
| "join sep [x] = x"
| "join sep (x # y # ys) = x @ sep @ join sep (y # ys)"

text \<open>
  An image of the comment: \<^verbatim>\<open>{ name, url }\<close>. The url of an attachment of the task
  may be missing and then prints as \<^verbatim>\<open>undefined\<close>.
\<close>

record image =
  img_name :: string
  img_url :: "string option"

definition show_url :: "string option \<Rightarrow> string" where
  "show_url u = (case u of None \<Rightarrow> ''undefined'' | Some s \<Rightarrow> s)"

text \<open>\<^verbatim>\<open>formatMentions\<close> (part_001 line 244, part_002 lines 199 and 604).\<close>

definition formatMentions :: "string list \<Rightarrow> string" where
  "formatMentions userIds =
     (if userIds = [] then [] else join '' '' (map (\<lambda>i. ''<@'' @ i @ ''>'') userIds))"

text \<open>
  \<^verbatim>\<open>buildComment\<close> (part_001 lines 249-275, part_002 lines 610-635): the list
  \<^verbatim>\<open>lines\<close> as it stands before the final \<^verbatim>\<open>join\<close>, then the comment.
  \<open>rest_lines\<close> is everything behind the mention line.
\<close>

definition rest_lines :: "string \<Rightarrow> string list \<Rightarrow> image list \<Rightarrow> string list" where
  "rest_lines taskName previewLinks images =
     [''**QA Passed '' @ arrow @ '' Preview Links for _'' @ taskName @ ''_**'' @ nl] @
     (if previewLinks \<noteq> []
      then [''**Preview Links**''] @
           map (\<lambda>(i, url). ''- [Link '' @ show_nat (i + 1) @ '']('' @ url @ '')'')
             (enumerate 0 previewLinks) @
           [[]]
      else [''_No preview links found._'' @ nl]) @
     (if images \<noteq> []
      then [''**QA Images**''] @
           map (\<lambda>img. ''- '' @ (if img_name img = [] then ''image'' else img_name img) @
                       '' '' @ arrow @ '' '' @ show_url (img_url img)) images
      else [''_No QA images found._''])"

definition comment_lines ::
  "string \<Rightarrow> string list \<Rightarrow> image list \<Rightarrow> string list \<Rightarrow> bool \<Rightarrow> string list" where
  "comment_lines taskName previewLinks images mentionIds includeMentions =
     (if includeMentions \<and> mentionIds \<noteq> [] then [formatMentions mentionIds @ nl] else []) @
     rest_lines taskName previewLinks images"

definition buildComment ::
  "string \<Rightarrow> string list \<Rightarrow> image list \<Rightarrow> string list \<Rightarrow> bool \<Rightarrow> string" where
  "buildComment taskName previewLinks images mentionIds includeMentions =
     join nl (comment_lines taskName previewLinks images mentionIds includeMentions)"

text \<open>
  \<^verbatim>\<open>buildComment\<close> of the first \<^verbatim>\<open>post-qa.js\<close> (part_002 lines 204-229): no
  \<^verbatim>\<open>includeMentions\<close>; that revision has no draft mode.
\<close>

definition buildComment_v1 :: "string \<Rightarrow> string list \<Rightarrow> image list \<Rightarrow> string list \<Rightarrow> string" where
  "buildComment_v1 taskName previewLinks images mentionIds =
     join nl ((if mentionIds \<noteq> [] then [formatMentions mentionIds @ nl] else []) @
              rest_lines taskName previewLinks images)"

text \<open>
  Step 6 of \<^verbatim>\<open>run\<close> (part_001 lines 453-475, part_002 lines 811-837): the mode, the
  final removal of duplicates, the comment, the banner, and the posting with its
  \<^verbatim>\<open>notify_all\<close>.
\<close>

record compose_config =
  commentMode :: string
  draft_addBanner :: bool
  draft_bannerText :: string
  draft_notifyAll :: bool
  final_notifyAll :: bool
  final_includeMentions :: bool

record posted_comment =
  comment_text :: string
  notify_all :: bool

definition compose_and_post ::
  "compose_config \<Rightarrow> string \<Rightarrow> string list \<Rightarrow> image list \<Rightarrow> string list \<Rightarrow> posted_comment" where
  "compose_and_post cfg taskName previewLinks finalImages mentionIds =
     (let isDraft = (commentMode cfg = ''draft'');
          includeMentions = (\<not> isDraft \<and> final_includeMentions cfg);
          uniqueLinks = new_Set previewLinks;
          commentText = buildComment taskName uniqueLinks finalImages mentionIds includeMentions;
          commentText' = (if isDraft \<and> draft_addBanner cfg
                          then draft_bannerText cfg @ nl @ nl @ commentText else commentText)
      in \<lparr>comment_text = commentText',
          notify_all = (if isDraft then draft_notifyAll cfg else final_notifyAll cfg)\<rparr>)"

subsection \<open>The dispatch endpoint\<close>

text \<open>
  The request as the handlers read it: the query parameters, the body, the headers.
  A parameter, field or header is an optional string. The body is absent (or not an
  object), \<^verbatim>\<open>null\<close>, unreadable (\<^verbatim>\<open>readJson\<close> rejects) or an object with its fields;
  reading a field of \<^verbatim>\<open>null\<close> throws, and the \<^verbatim>\<open>catch\<close> of every handler answers 500.
\<close>

record body_fields =
  b_task_id :: "string option"
  b_task :: "string option"
  b_token :: "string option"

datatype req_body = BodyAbsent | BodyNull | BodyUnreadable | BodyObject body_fields

record request =
  q_task_id :: "string option"
  q_task :: "string option"
  q_token :: "string option"
  body :: req_body
  h_x_auth :: "string option"
  h_X_Auth :: "string option"
  h_authorization :: "string option"
  h_Authorization :: "string option"
  h_content_type :: "string option"

record env =
  GH_REPO :: "string option"
  GH_WORKFLOW :: "string option"
  GH_REF :: "string option"
  GH_TOKEN :: "string option"
  SHARED_DISPATCH_TOKEN :: "string option"

text \<open>The outcome of \<^verbatim>\<open>fetch\<close> to GitHub: it throws, or answers with a status.\<close>

datatype gh_outcome = FetchThrows | GhStatus nat

record gh_call =
  call_repo :: string
  call_workflow :: string
  call_ref :: string
  call_token :: string
  call_task :: string

record http_result =
  resp_status :: nat
  github_calls :: "gh_call list"

definition truthy :: "string option \<Rightarrow> bool" where
  "truthy a = (case a of None \<Rightarrow> False | Some s \<Rightarrow> s \<noteq> [])"

definition respond :: "nat \<Rightarrow> gh_call list \<Rightarrow> http_result" where
  "respond code calls = \<lparr>resp_status = code, github_calls = calls\<rparr>"

text \<open>
  A field of the body, \<open>None\<close> when reading it throws. In the two later revisions the
  body is \<^verbatim>\<open>req.body\<close> when that is an object and \<^verbatim>\<open>{}\<close> otherwise.
\<close>

definition body_field :: "req_body \<Rightarrow> (body_fields \<Rightarrow> string option) \<Rightarrow> string option option" where
  "body_field b sel =
     (case b of
        BodyObject fs \<Rightarrow> Some (sel fs)
      | BodyNull \<Rightarrow> None
      | _ \<Rightarrow> Some None)"

text \<open>
  \<^verbatim>\<open>(q.task_id || body.task_id || q.task || body.task || '').toString().trim()\<close>,
  \<open>None\<close> when it throws.
\<close>

definition taskId_ab :: "request \<Rightarrow> string option" where
  "taskId_ab req =
     (if truthy (q_task_id req) then Some (trim (str_or (q_task_id req) []))
      else case body_field (body req) b_task_id of
             None \<Rightarrow> None
           | Some bt \<Rightarrow>
               if truthy bt then Some (trim (str_or bt []))
               else if truthy (q_task req) then Some (trim (str_or (q_task req) []))
               else (case body_field (body req) b_task of
                       None \<Rightarrow> None
                     | Some bk \<Rightarrow> Some (trim (str_or bk []))))"

text \<open>The call of GitHub and the answer to it (src/api/dispatch.js lines 44-86).\<close>

definition dispatch_ab :: "env \<Rightarrow> gh_outcome \<Rightarrow> string \<Rightarrow> http_result" where
  "dispatch_ab e gh taskId =
     (let repo = trim (str_or (GH_REPO e) []);
          workflow = trim (str_or (GH_WORKFLOW e) []);
          ref = trim (str_or (GH_REF e) ''main'');
          token = trim (str_or (GH_TOKEN e) [])
      in if repo = [] \<or> workflow = [] \<or> token = [] then respond 500 []
         else (let call = \<lparr>call_repo = repo, call_workflow = workflow, call_ref = ref,
                             call_token = token, call_task = taskId\<rparr>
               in case gh of
                    FetchThrows \<Rightarrow> respond 500 [call]
                  | GhStatus st \<Rightarrow> if st = 204 then respond 200 [call] else respond 502 [call]))"

text \<open>
  \<^verbatim>\<open>handler\<close> of src/sharepoint.js lines 163-245 (tokens from the query and the
  \<^verbatim>\<open>X-Auth\<close> header).
\<close>

definition handler_a :: "env \<Rightarrow> gh_outcome \<Rightarrow> request \<Rightarrow> http_result" where
  "handler_a e gh req =
     (case taskId_ab req of
        None \<Rightarrow> respond 500 []
      | Some taskId \<Rightarrow>
          (let tokenQP = trim (str_or (q_token req) []);
               tokenHdr = trim (str_or (h_x_auth req) (str_or (h_X_Auth req) []));
               expected = trim (str_or (SHARED_DISPATCH_TOKEN e) []);
               authOk = (expected \<noteq> [] \<and> (tokenQP = expected \<or> tokenHdr = expected))
           in if \<not> authOk then respond 401 []
              else if taskId = [] then respond 400 []
              else dispatch_ab e gh taskId))"

text \<open>
  \<^verbatim>\<open>handler\<close> of src/api/dispatch.js lines 5-91 (also \<^verbatim>\<open>Authorization: Bearer\<close>).
\<close>

definition handler_b :: "env \<Rightarrow> gh_outcome \<Rightarrow> request \<Rightarrow> http_result" where
  "handler_b e gh req =
     (case taskId_ab req of
        None \<Rightarrow> respond 500 []
      | Some taskId \<Rightarrow>
          (let tokenQP = trim (str_or (q_token req) []);
               tokenHdr = trim (str_or (h_x_auth req) (str_or (h_X_Auth req) []));
               authHdr = trim (str_or (h_authorization req) (str_or (h_Authorization req) []));
               bearer = (if startsWith (toLowerCase authHdr) ''bearer ''
                         then trim (drop 7 authHdr) else []);
               expected = trim (str_or (SHARED_DISPATCH_TOKEN e) []);
               authOk = (expected \<noteq> [] \<and>
                         (tokenQP = expected \<or> tokenHdr = expected \<or> bearer = expected))
           in if \<not> authOk then respond 401 []
              else if taskId = [] then respond 400 []
              else dispatch_ab e gh taskId))"

text \<open>
  \<^verbatim>\<open>handler\<close> of src/api/dispatch.js lines 107-158: the environment first, then the
  body (read only for a JSON content type), the token, the task id, GitHub.
  \<^verbatim>\<open>GH_REF\<close> defaults to \<^verbatim>\<open>main\<close> only when it is not set.
\<close>

definition body_c :: "request \<Rightarrow> req_body" where
  "body_c req =
     (if includes_str (str_or (h_content_type req) []) ''application/json''
      then body req else BodyAbsent)"

definition handler_c :: "env \<Rightarrow> gh_outcome \<Rightarrow> request \<Rightarrow> http_result" where
  "handler_c e gh req =
     (if \<not> truthy (GH_REPO e) \<or> \<not> truthy (GH_WORKFLOW e) \<or> \<not> truthy (GH_TOKEN e) \<or>
         \<not> truthy (SHARED_DISPATCH_TOKEN e)
      then respond 500 []
      else if body_c req = BodyUnreadable then respond 500 []
      else (case (if truthy (q_token req) then Some (q_token req)
                  else body_field (body_c req) b_token) of
              None \<Rightarrow> respond 500 []
            | Some tok \<Rightarrow>
               (let providedToken = str_or tok (str_or (h_x_auth req) []) in
                if providedToken \<noteq> str_or (SHARED_DISPATCH_TOKEN e) [] then respond 401 []
                else (case (if truthy (q_task_id req) then Some (q_task_id req)
                            else body_field (body_c req) b_task_id) of
                        None \<Rightarrow> respond 500 []
                      | Some t \<Rightarrow>
                         (let taskId = trim (str_or t []) in
                          if taskId = [] then respond 400 []
                          else (let call = \<lparr>call_repo = str_or (GH_REPO e) [],
                                             call_workflow = str_or (GH_WORKFLOW e) [],
                                             call_ref = (case GH_REF e of None \<Rightarrow> ''main'' | Some r \<Rightarrow> r),
                                             call_token = str_or (GH_TOKEN e) [],
                                             call_task = taskId\<rparr>
                                in case gh of
                                     FetchThrows \<Rightarrow> respond 500 [call]
                                   | GhStatus st \<Rightarrow>
                                       if 200 \<le> st \<and> st \<le> 299 then respond 200 [call]
                                       else respond 502 [call]))))))"

subsection \<open>Auxiliary notions\<close>

text \<open>
  A string is collapsed for a class of characters when every character of the class
  in it is a single space that is not followed by another character of the class.
\<close>

fun collapsed :: "(char \<Rightarrow> bool) \<Rightarrow> string \<Rightarrow> bool" where
  "collapsed p [] = True"
| "collapsed p [c] = (p c \<longrightarrow> c = CHR '' '')"
| "collapsed p (c # d # cs) = ((p c \<longrightarrow> c = CHR '' '' \<and> \<not> p d) \<and> collapsed p (d # cs))"

text \<open>
  The pass condition of the gate on one snapshot of the work item, and a tracker
  that answers every \<^verbatim>\<open>cuGet\<close> with the same snapshot.
\<close>

definition pass_condition :: "gate_config \<Rightarrow> task \<Rightarrow> bool" where
  "pass_condition cfg t =
     (normalize_str (status_of t) = normalize_str (requiredStatus cfg) \<and>
      isCheckboxChecked (findCustomField t (passedQA_field cfg)))"

definition steady :: "task \<Rightarrow> nat \<Rightarrow> task option" where
  "steady t n = Some t"

text \<open>A tracker that answers the first \<^verbatim>\<open>cuGet\<close> with \<open>t1\<close> and every later one with \<open>t2\<close>.\<close>

definition answers :: "task \<Rightarrow> task \<Rightarrow> nat \<Rightarrow> task option" where
  "answers t1 t2 n = Some (if n = 0 then t1 else t2)"

text \<open>When the re-check fires, on the first snapshot.\<close>

definition recheck_fires :: "(string \<Rightarrow> bool) \<Rightarrow> gate_config \<Rightarrow> task \<Rightarrow> bool" where
  "recheck_fires pending cfg t =
     (normalize_str (status_of t) \<noteq> normalize_str (requiredStatus cfg) \<and>
      isCheckboxChecked (findCustomField t (passedQA_field cfg)) \<and>
      pending (status_of t))"

text \<open>The number of times a run does something: \<^verbatim>\<open>cuGet\<close> calls and waits.\<close>

definition fetches :: "event list \<Rightarrow> nat" where
  "fetches evs = length (filter (\<lambda>e. e = CuGet) evs)"

definition waits :: "event list \<Rightarrow> nat list" where
  "waits evs = concat (map (\<lambda>e. case e of Sleep ms \<Rightarrow> [ms] | _ \<Rightarrow> []) evs)"

text \<open>Examples: a work item with a status and a checkbox value.\<close>

definition example_task :: "string \<Rightarrow> jsval \<Rightarrow> task" where
  "example_task st v =
     \<lparr>t_status = Some \<lparr>st_status = Some st, st_name = None\<rparr>,
      custom_fields = [\<lparr>cf_id = Some ''f1'', cf_name = Some ''Passed QA'', cf_value = v\<rparr>]\<rparr>"

definition example_config :: "string \<Rightarrow> gate_config" where
  "example_config req =
     \<lparr>requiredStatus = req, passedQA_field = ''Passed QA'', postGateFailureComment = True\<rparr>"

text \<open>Examples: an environment with a given shared secret, a request with a given token.\<close>

definition example_env :: "string option \<Rightarrow> env" where
  "example_env secret =
     \<lparr>GH_REPO = Some ''owner/repo'', GH_WORKFLOW = Some ''post-qa.yml'', GH_REF = Some ''main'',
      GH_TOKEN = Some ''ghp_token'', SHARED_DISPATCH_TOKEN = secret\<rparr>"

definition example_request :: "string option \<Rightarrow> request" where
  "example_request tok =
     \<lparr>q_task_id = Some ''868fj80zu'', q_task = None, q_token = tok, body = BodyAbsent,
      h_x_auth = None, h_X_Auth = None, h_authorization = None, h_Authorization = None,
      h_content_type = None\<rparr>"

text \<open>Examples: a file of a listing with a given name, in either shape.\<close>

definition sp_file :: "string \<Rightarrow> sp_item" where
  "sp_file n = \<lparr>sp_id = n, sp_driveId = ''drive'', sp_name = n, sp_mime = [], sp_isFolder = False\<rparr>"

definition graph_file :: "string \<Rightarrow> graph_item" where
  "graph_file n =
     \<lparr>gi_id = n, gi_driveId = ''drive'', gi_name = n, gi_file = Some [], gi_folder = False\<rparr>"

definition graph_folder :: "string \<Rightarrow> graph_item" where
  "graph_folder n =
     \<lparr>gi_id = n, gi_driveId = ''drive'', gi_name = n, gi_file = None, gi_folder = True\<rparr>"

text \<open>
  The elements of a sequence at their first occurrence, in the order of the sequence:
  position \<open>i\<close> is kept when its element does not occur before \<open>i\<close>.
\<close>

definition first_occurrences :: "'a list \<Rightarrow> 'a list" where
  "first_occurrences xs =
     map (\<lambda>i. xs ! i) (filter (\<lambda>i. xs ! i \<notin> set (take i xs)) [0..<length xs])"

text \<open>
  The links in the order of their discovery, before the \<^verbatim>\<open>Set\<close> drops the repeated
  ones: sheet by sheet in src/sharepoint.js; row by row and cell by cell of the one sheet
  read in part_000.
\<close>

definition discovered_sp :: "(sheet \<Rightarrow> string) \<Rightarrow> workbook \<Rightarrow> string list" where
  "discovered_sp sheet_to_csv wb =
     concat (map (\<lambda>(sheetName, ws). map trim (match_all (sheet_to_csv ws))) wb)"

definition discovered_p0 :: "workbook \<Rightarrow> string list" where
  "discovered_p0 wb =
     (case pick_sheet_p0 wb of
        None \<Rightarrow> []
      | Some (sheetName, json) \<Rightarrow>
          concat (map (\<lambda>row. concat (map (\<lambda>cell. map trim (match_all (cell_text cell))) row))
                    json))"

text \<open>
  Examples: two preview links, and a workbook whose first sheet has no link and whose
  second sheet, of the given name, has the first link twice and the second once.
\<close>

definition example_link :: string where
  "example_link = ''https://files.example.com/x?convert_e=123456''"

definition example_link2 :: string where
  "example_link2 = ''http://a.io/?convert_v=1234567''"

definition example_workbook :: "string \<Rightarrow> workbook" where
  "example_workbook sheetName =
     [(''Sheet1'', [[Some ''QA'', None]]),
      (sheetName,
       [[Some (''see '' @ example_link)],
        [Some (''('' @ example_link2 @ '')''), Some example_link]])]"

text \<open>Example: the configuration of part_001 and part_002, in a given mode.\<close>

definition example_compose_config :: "string \<Rightarrow> compose_config" where
  "example_compose_config mode =
     \<lparr>commentMode = mode, draft_addBanner = True,
      draft_bannerText = ''DRAFT - Review before sending'',
      draft_notifyAll = False, final_notifyAll = True, final_includeMentions = True\<rparr>"

section \<open>Properties\<close>

subsection \<open>Characters\<close>

lemma code_of_char_of: "n < 256 \<Longrightarrow> code_of (char_of n) = n"
  by (simp add: code_of_def)

lemma code_of_eq_iff: "code_of c = code_of d \<longleftrightarrow> c = d"
  by (simp add: code_of_def)

lemma code_of_lower:
  "code_of (lower_char c) =
     (if (65 \<le> code_of c \<and> code_of c \<le> 90) \<or>
         (192 \<le> code_of c \<and> code_of c \<le> 222 \<and> code_of c \<noteq> 215)
      then code_of c + 32 else code_of c)"
  unfolding lower_char_def Let_def by (auto simp: code_of_char_of)

lemma lower_char_idem: "lower_char (lower_char c) = lower_char c"
  unfolding lower_char_def Let_def by (auto simp: code_of_char_of)

lemma is_space_lower: "is_space (lower_char c) = is_space c"
  unfolding lower_char_def Let_def is_space_def by (auto simp: code_of_char_of)

lemma is_word_lower: "is_word (lower_char c) = is_word c"
  unfolding lower_char_def Let_def is_word_def by (auto simp: code_of_char_of)

lemma lower_space: "lower_char (CHR '' '') = CHR '' ''"
  by (simp add: lower_char_def code_of_def)

lemma is_space_space: "is_space (CHR '' '')"
  by (simp add: is_space_def code_of_def)

lemma norm_keep_code:
  "norm_keep c = (is_word c \<or> code_of c = 46 \<or> code_of c = 45 \<or> code_of c = 32)"
proof -
  have "c = CHR ''.'' \<longleftrightarrow> code_of c = 46" "c = CHR ''-'' \<longleftrightarrow> code_of c = 45"
       "c = CHR '' '' \<longleftrightarrow> code_of c = 32"
    using code_of_eq_iff[of c "CHR ''.''"] code_of_eq_iff[of c "CHR ''-''"]
          code_of_eq_iff[of c "CHR '' ''"]
    by (simp_all add: code_of_def)
  then show ?thesis by (simp add: norm_keep_def)
qed

lemma norm_keep_lower: "norm_keep (lower_char c) = norm_keep c"
  unfolding norm_keep_code is_word_lower by (auto simp: code_of_lower)

lemma toLowerCase_fixed: "(\<And>c. c \<in> set s \<Longrightarrow> lower_char c = c) \<Longrightarrow> toLowerCase s = s"
  by (simp add: toLowerCase_def map_idI)

subsection \<open>Trimming\<close>

lemma set_trim: "set (trim s) \<subseteq> set s"
proof
  fix x
  assume "x \<in> set (trim s)"
  then have "x \<in> set (dropWhile is_space (rev (dropWhile is_space s)))"
    by (simp add: trim_def)
  then have "x \<in> set (rev (dropWhile is_space s))" by (rule set_dropWhileD)
  then have "x \<in> set (dropWhile is_space s)" by simp
  then show "x \<in> set s" by (rule set_dropWhileD)
qed

lemma dropWhile_fixed: "s = [] \<or> \<not> q (hd s) \<Longrightarrow> dropWhile q s = s"
  by (cases s) auto

lemma last_dropWhile_nonempty: "dropWhile q s \<noteq> [] \<Longrightarrow> last (dropWhile q s) = last s"
  by (induction s) (auto split: if_splits)

lemma trim_ends:
  "trim s = [] \<or> (\<not> is_space (hd (trim s)) \<and> \<not> is_space (last (trim s)))"
proof (cases "trim s = []")
  case True
  then show ?thesis by simp
next
  case False
  let ?u = "dropWhile is_space s"
  let ?v = "dropWhile is_space (rev ?u)"
  have v: "?v \<noteq> []" using False by (simp add: trim_def)
  have u: "?u \<noteq> []"
  proof
    assume "?u = []"
    then have "?v = []" by (simp only: rev.simps dropWhile.simps)
    with v show False by simp
  qed
  have "hd (trim s) = last ?v" by (simp add: trim_def hd_rev)
  also have "\<dots> = last (rev ?u)" using v by (rule last_dropWhile_nonempty)
  also have "\<dots> = hd ?u" using u by (simp add: last_rev)
  finally have h: "\<not> is_space (hd (trim s))" using u hd_dropWhile by metis
  have "last (trim s) = hd ?v" using v by (simp add: trim_def last_rev)
  then have "\<not> is_space (last (trim s))" using v hd_dropWhile by metis
  with h show ?thesis by simp
qed

lemma trim_fixed:
  assumes "s = [] \<or> (\<not> is_space (hd s) \<and> \<not> is_space (last s))"
  shows "trim s = s"
proof (cases "s = []")
  case True
  then show ?thesis by (simp add: trim_def)
next
  case False
  with assms have h: "\<not> is_space (hd s)" and l: "\<not> is_space (last s)" by auto
  have 1: "dropWhile is_space s = s" using h by (simp add: dropWhile_fixed)
  have "hd (rev s) = last s" using False by (simp add: hd_rev)
  then have 2: "dropWhile is_space (rev s) = rev s" using l by (simp add: dropWhile_fixed)
  show ?thesis by (simp add: trim_def 1 2)
qed

lemma trim_idem: "trim (trim s) = trim s"
  by (rule trim_fixed) (rule trim_ends)

subsection \<open>Runs of a character class\<close>

lemma collapsed_Cons_not: "\<not> p c \<Longrightarrow> collapsed p (c # cs) = collapsed p cs"
  by (cases cs) auto

lemma collapsed_Cons_space:
  "p (CHR '' '') \<Longrightarrow>
   collapsed p (CHR '' '' # cs) = ((cs = [] \<or> \<not> p (hd cs)) \<and> collapsed p cs)"
  by (cases cs) auto

lemma collapsed_replace_runs:
  "p (CHR '' '') \<Longrightarrow> collapsed p (replace_runs p '' '' s)"
proof (induction p "'' ''" s rule: replace_runs.induct)
  case (1 p)
  then show ?case by simp
next
  case (2 p c cs)
  show ?case
  proof (cases "p c")
    case True
    have hd: "replace_runs p '' '' (dropWhile p cs) = [] \<or>
              \<not> p (hd (replace_runs p '' '' (dropWhile p cs)))"
    proof (cases "dropWhile p cs")
      case Nil
      show ?thesis unfolding Nil by simp
    next
      case (Cons d ds)
      then have "\<not> p d" by (metis hd_dropWhile list.sel(1) list.distinct(1))
      then show ?thesis unfolding Cons by simp
    qed
    from True 2 hd show ?thesis by (simp add: collapsed_Cons_space)
  next
    case False
    with 2 show ?thesis by (simp add: collapsed_Cons_not)
  qed
qed

lemma replace_runs_collapsed: "collapsed p s \<Longrightarrow> replace_runs p '' '' s = s"
  by (induction p s rule: collapsed.induct) auto

lemma collapsed_append: "collapsed p (xs @ ys) \<Longrightarrow> collapsed p xs \<and> collapsed p ys"
proof (induction p xs rule: collapsed.induct)
  case (1 p)
  then show ?case by simp
next
  case (2 p c)
  then show ?case by (cases ys) auto
next
  case (3 p c d cs)
  then show ?case by auto
qed

lemma collapsed_dropWhile: "collapsed p s \<Longrightarrow> collapsed p (dropWhile q s)"
  by (metis collapsed_append takeWhile_dropWhile_id)

lemma rev_dropWhile_rev_prefix: "rev (dropWhile q (rev s)) @ rev (takeWhile q (rev s)) = s"
  by (metis rev_append rev_rev_ident takeWhile_dropWhile_id)

lemma collapsed_trim: "collapsed p s \<Longrightarrow> collapsed p (trim s)"
  unfolding trim_def
  by (metis collapsed_append collapsed_dropWhile rev_dropWhile_rev_prefix)

lemma set_replace_runs:
  "c \<in> set (replace_runs p r s) \<Longrightarrow> c \<in> set r \<or> (c \<in> set s \<and> \<not> p c)"
  by (induction p r s rule: replace_runs.induct) (auto split: if_splits dest: set_dropWhileD)

lemma remove_chars_id: "(\<And>c. c \<in> set s \<Longrightarrow> \<not> q c) \<Longrightarrow> remove_chars q s = s"
  by (simp add: remove_chars_def)

subsection \<open>Normalization applied twice\<close>

text \<open>
  Both normalizers are of the shape: lower case, runs of a class \<open>p\<close> to one space,
  delete what is not in \<open>keep\<close>, trim. When nothing of \<open>x\<close> is deleted, a second
  application changes nothing.
\<close>

lemma normal_form_idem:
  assumes sp: "p (CHR '' '')" and keep_sp: "keep (CHR '' '')"
    and clean: "\<And>c. c \<in> set x \<Longrightarrow> \<not> p (lower_char c) \<Longrightarrow> keep (lower_char c)"
  defines "N \<equiv> \<lambda>s. trim (remove_chars (\<lambda>c. \<not> keep c) (replace_runs p '' '' (toLowerCase s)))"
  shows "N (N x) = N x"
proof -
  let ?b = "replace_runs p '' '' (toLowerCase x)"
  have b_chars: "c = CHR '' '' \<or> (\<exists>c0 \<in> set x. c = lower_char c0 \<and> \<not> p c)"
    if "c \<in> set ?b" for c
    using set_replace_runs[OF that] by (auto simp: toLowerCase_def)
  have b_keep: "keep c" if "c \<in> set ?b" for c
    using b_chars[OF that] keep_sp clean by auto
  have b_low: "lower_char c = c" if "c \<in> set ?b" for c
    using b_chars[OF that] by (auto simp: lower_space lower_char_idem)
  have Nx: "N x = trim ?b"
    unfolding N_def using b_keep by (simp add: remove_chars_id)
  let ?d = "trim ?b"
  have d_sub: "set ?d \<subseteq> set ?b" by (rule set_trim)
  have 1: "toLowerCase ?d = ?d" using d_sub b_low by (intro toLowerCase_fixed) auto
  have "collapsed p ?b" using sp by (rule collapsed_replace_runs)
  then have "collapsed p ?d" by (rule collapsed_trim)
  then have 2: "replace_runs p '' '' ?d = ?d" by (rule replace_runs_collapsed)
  have 3: "remove_chars (\<lambda>c. \<not> keep c) ?d = ?d" using d_sub b_keep by (intro remove_chars_id) auto
  have "N ?d = ?d" unfolding N_def by (simp add: 1 2 3 trim_idem)
  with Nx show ?thesis by simp
qed

lemma normalize_clean_idem:
  assumes "\<forall>c \<in> set x. is_word c \<or> is_space c"
  shows "normalize_str (normalize_str x) = normalize_str x"
  unfolding normalize_str_def
  by (rule normal_form_idem[where p = is_space and keep = "\<lambda>c. is_word c \<or> is_space c"])
     (use assms in \<open>auto simp: is_space_space is_word_lower is_space_lower\<close>)

lemma normalize_chars: "c \<in> set (normalize_str x) \<Longrightarrow> is_word c \<or> is_space c"
  unfolding normalize_str_def using set_trim by (fastforce simp: remove_chars_def)

lemma norm_clean_idem:
  assumes "\<forall>c \<in> set x. is_word c \<or> c = CHR ''.'' \<or> c = CHR ''-'' \<or> is_space c"
  shows "norm_str (norm_str x) = norm_str x"
proof -
  have clean: "norm_keep (lower_char c)"
    if "c \<in> set x" and "\<not> (lower_char c = CHR ''_'' \<or> is_space (lower_char c))" for c
  proof -
    from that assms have "is_word c \<or> c = CHR ''.'' \<or> c = CHR ''-''"
      by (auto simp: is_space_lower)
    then have "norm_keep c" by (auto simp: norm_keep_def)
    then show ?thesis by (simp add: norm_keep_lower)
  qed
  have sp: "CHR '' '' = CHR ''_'' \<or> is_space (CHR '' '')" by (simp add: is_space_space)
  have keep: "norm_keep (CHR '' '')" by (simp add: norm_keep_def)
  show ?thesis
    unfolding norm_str_def fold_dashes_def
    by (rule normal_form_idem[where p = "\<lambda>c. c = CHR ''_'' \<or> is_space c" and keep = norm_keep])
       (use sp keep clean in blast)+
qed

lemma norm_chars: "c \<in> set (norm_str x) \<Longrightarrow> norm_keep c"
  unfolding norm_str_def using set_trim by (fastforce simp: remove_chars_def)

text \<open>
  Claim C8. As stated, idempotence of the normalization for every string, the claim
  fails: deleting punctuation that stands between two spaces leaves two spaces, which
  only a second application collapses.
\<close>

theorem normalize_not_idempotent:
  "normalize_str (normalize_str ''a - b'') \<noteq> normalize_str ''a - b'' \<and>
   norm_str (norm_str ''a ! b'') \<noteq> norm_str ''a ! b''"
  by code_simp

text \<open>
  Claim C8, amended. \<open>normalize_str (normalize_str x) = normalize_str x\<close> holds for every string
  \<open>x\<close> from which \<open>normalize_str\<close> deletes nothing (all characters are word characters
  or whitespace), and for every string from the second application on; the same holds
  for \<open>norm_str\<close> of \<^verbatim>\<open>findExcelForTask\<close>, which deletes nothing when all characters are
  word characters, dots, hyphens or whitespace.
\<close>

theorem normalize_idempotent_amended:
  "((\<forall>c \<in> set x. is_word c \<or> is_space c) \<longrightarrow> normalize_str (normalize_str x) = normalize_str x) \<and>
   normalize_str (normalize_str (normalize_str x)) = normalize_str (normalize_str x) \<and>
   ((\<forall>c \<in> set x. is_word c \<or> c = CHR ''.'' \<or> c = CHR ''-'' \<or> is_space c) \<longrightarrow>
      norm_str (norm_str x) = norm_str x) \<and>
   norm_str (norm_str (norm_str x)) = norm_str (norm_str x)"
proof (intro conjI impI)
  show "normalize_str (normalize_str (normalize_str x)) = normalize_str (normalize_str x)"
    by (rule normalize_clean_idem) (auto dest: normalize_chars)
  show "norm_str (norm_str (norm_str x)) = norm_str (norm_str x)"
    by (rule norm_clean_idem) (auto dest!: norm_chars simp: norm_keep_def is_space_space)
qed (simp_all add: normalize_clean_idem norm_clean_idem)


theorem normalize_idempotent_amended_witness:
  "list_all (\<lambda>c. is_word c \<or> c = CHR ''.'' \<or> c = CHR ''-'' \<or> is_space c) ''Task  A-v2.xlsx'' \<and>
   norm_str (norm_str ''Task  A-v2.xlsx'') = norm_str ''Task  A-v2.xlsx'' \<and>
   list_all (\<lambda>c. is_word c \<or> is_space c) ''QA  Dev'' \<and>
   normalize_str (normalize_str ''QA  Dev'') = normalize_str ''QA  Dev''"
proof -
  have h1: "\<forall>c \<in> set ''Task  A-v2.xlsx''. is_word c \<or> c = CHR ''.'' \<or> c = CHR ''-'' \<or> is_space c"
    by code_simp
  have h2: "\<forall>c \<in> set ''QA  Dev''. is_word c \<or> is_space c"
    by code_simp
  from h1 h2 normalize_idempotent_amended[of "''Task  A-v2.xlsx''"]
       normalize_idempotent_amended[of "''QA  Dev''"]
  show ?thesis unfolding list_all_iff by blast
qed

subsection \<open>The checkbox\<close>

lemma isCheckboxChecked_exact:
  "isCheckboxChecked cfObj \<longleftrightarrow>
     (\<exists>f. cfObj = Some f \<and>
        (cf_value f = JBool True \<or> cf_value f = JNum 1 \<or>
         (\<exists>s. cf_value f = JStr s \<and>
              toLowerCase (trim s) \<in> {''true'', ''1'', ''yes'', ''checked'', ''on''})))"
  unfolding isCheckboxChecked_def Let_def
  by (cases cfObj) (auto split: jsval.splits)

lemma isCheckboxChecked_v1_exact:
  "isCheckboxChecked_v1 cfObj \<longleftrightarrow>
     (\<exists>f. cfObj = Some f \<and>
        (cf_value f = JBool True \<or> cf_value f = JNum 1 \<or> cf_value f = JStr ''1''))"
  unfolding isCheckboxChecked_v1_def by (cases cfObj) auto

text \<open>
  Claim C4. \<^verbatim>\<open>isCheckboxChecked\<close> of part_001 and of part_002 line 549 is true
  exactly for \<^verbatim>\<open>true\<close>, \<^verbatim>\<open>1\<close> and the five string encodings
  (\<open>isCheckboxChecked_exact\<close>). The function of the same name of part_002 line 150
  accepts of the strings only \<^verbatim>\<open>'1'\<close> (\<open>isCheckboxChecked_v1_exact\<close>): at the
  checkbox value \<^verbatim>\<open>"yes"\<close> it answers unchecked where the later revisions answer
  checked.
\<close>

theorem isCheckboxChecked_v1_misses_yes:
  "isCheckboxChecked_v1
     (Some \<lparr>cf_id = Some ''f1'', cf_name = Some ''Passed QA'', cf_value = JStr ''yes''\<rparr>) = False \<and>
   isCheckboxChecked
     (Some \<lparr>cf_id = Some ''f1'', cf_name = Some ''Passed QA'', cf_value = JStr ''yes''\<rparr>) = True"
  by code_simp

subsection \<open>The gate\<close>

lemma final_decision_outcome:
  "outcome (final_decision cfg s ok p evs) = (if ok \<and> p then GatePassed else GateFailed)"
  by (auto simp: final_decision_def)

lemma final_decision_fields:
  "statusNow (final_decision cfg s ok p evs) = s"
  "statusOk (final_decision cfg s ok p evs) = ok"
  "passedQA (final_decision cfg s ok p evs) = p"
  by (auto simp: final_decision_def)

lemma final_decision_fetches:
  "fetches (events (final_decision cfg s ok p evs)) = fetches evs"
  "waits (events (final_decision cfg s ok p evs)) = waits evs"
  by (auto simp: final_decision_def fetches_def waits_def)

lemma run_gate_steady:
  "outcome (run_gate pending cfg (steady t)) = GatePassed \<longleftrightarrow> pass_condition cfg t"
  by (auto simp: run_gate_def steady_def Let_def final_decision_outcome pass_condition_def)

lemma run_gate_passed:
  "outcome (run_gate pending cfg cuGet) = GatePassed \<longleftrightarrow>
     outcome (run_gate pending cfg cuGet) \<noteq> RunError \<and>
     normalize_str (statusNow (run_gate pending cfg cuGet)) = normalize_str (requiredStatus cfg) \<and>
     passedQA (run_gate pending cfg cuGet)"
  by (auto simp: run_gate_def Let_def final_decision_outcome final_decision_fields split: option.splits)


lemma fetches_append: "fetches (a @ b) = fetches a + fetches b"
  by (simp add: fetches_def)

lemma waits_append: "waits (a @ b) = waits a @ waits b"
  by (simp add: waits_def)

lemma run_gate_events:
  "\<exists>post. events (run_gate pending cfg cuGet) =
            (if \<exists>t. cuGet 0 = Some t \<and> recheck_fires pending cfg t
             then [CuGet, Sleep 1500, CuGet] else [CuGet]) @ post \<and>
          fetches post = 0 \<and> waits post = []"
proof (cases "cuGet 0")
  case None
  then show ?thesis by (simp add: run_gate_def fetches_def waits_def)
next
  case (Some t)
  have fd: "\<exists>post. events (final_decision cfg s ok p evs) = evs @ post \<and>
                   fetches post = 0 \<and> waits post = []" for s ok p evs
    by (simp add: final_decision_def fetches_def waits_def)
  show ?thesis
  proof (cases "recheck_fires pending cfg t")
    case True
    show ?thesis
    proof (cases "cuGet 1")
      case None
      with True Some show ?thesis
        by (simp add: run_gate_def Let_def recheck_fires_def fetches_def waits_def)
    next
      case (Some t2)
      with True \<open>cuGet 0 = Some t\<close> have "run_gate pending cfg cuGet =
                 final_decision cfg (status_of t2)
                   (normalize_str (status_of t2) = normalize_str (requiredStatus cfg))
                   (isCheckboxChecked (findCustomField t (passedQA_field cfg)))
                   [CuGet, Sleep 1500, CuGet]"
        by (simp add: run_gate_def Let_def recheck_fires_def)
      moreover obtain post where
        "events (final_decision cfg (status_of t2)
                   (normalize_str (status_of t2) = normalize_str (requiredStatus cfg))
                   (isCheckboxChecked (findCustomField t (passedQA_field cfg)))
                   [CuGet, Sleep 1500, CuGet]) = [CuGet, Sleep 1500, CuGet] @ post"
        "fetches post = 0" "waits post = []"
        using fd by blast
      ultimately show ?thesis using True \<open>cuGet 0 = Some t\<close> by auto
    qed
  next
    case False
    then have "run_gate pending cfg cuGet =
                 final_decision cfg (status_of t)
                   (normalize_str (status_of t) = normalize_str (requiredStatus cfg))
                   (isCheckboxChecked (findCustomField t (passedQA_field cfg))) [CuGet]"
      using Some by (auto simp: run_gate_def Let_def recheck_fires_def)
    moreover obtain post where
      "events (final_decision cfg (status_of t)
                 (normalize_str (status_of t) = normalize_str (requiredStatus cfg))
                 (isCheckboxChecked (findCustomField t (passedQA_field cfg))) [CuGet]) =
         [CuGet] @ post"
      "fetches post = 0" "waits post = []"
      using fd by blast
    ultimately show ?thesis using False Some by auto
  qed
qed

lemma run_gate_refetch:
  fixes pending cfg cuGet
  defines "r \<equiv> run_gate pending cfg cuGet"
  shows "fetches (events r) \<le> 2"
    and "fetches (events r) = 2 \<longleftrightarrow> (\<exists>t. cuGet 0 = Some t \<and> recheck_fires pending cfg t)"
    and "waits (events r) = (if fetches (events r) = 2 then [1500] else [])"
proof -
  obtain post where ev: "events r =
            (if \<exists>t. cuGet 0 = Some t \<and> recheck_fires pending cfg t
             then [CuGet, Sleep 1500, CuGet] else [CuGet]) @ post"
    and post: "fetches post = 0" "waits post = []"
    using run_gate_events[of pending cfg cuGet] unfolding r_def by blast
  have f3: "fetches [CuGet, Sleep 1500, CuGet] = 2" "fetches [CuGet] = 1"
    by (simp_all add: fetches_def)
  have w3: "waits [CuGet, Sleep 1500, CuGet] = [1500]" "waits [CuGet] = []"
    by (simp_all add: waits_def)
  show "fetches (events r) \<le> 2" using ev post f3 by (simp add: fetches_append)
  show c: "fetches (events r) = 2 \<longleftrightarrow> (\<exists>t. cuGet 0 = Some t \<and> recheck_fires pending cfg t)"
    using ev post f3 by (simp add: fetches_append)
  show "waits (events r) = (if fetches (events r) = 2 then [1500] else [])"
    unfolding c using ev post w3 by (simp add: waits_append)
qed

lemma run_gate_fresh:
  assumes "cuGet 0 = Some t" "recheck_fires pending cfg t" "cuGet 1 = Some t2"
  shows "statusNow (run_gate pending cfg cuGet) = status_of t2"
    and "outcome (run_gate pending cfg cuGet) = GatePassed \<longleftrightarrow>
           normalize_str (status_of t2) = normalize_str (requiredStatus cfg)"
    and "passedQA (run_gate pending cfg cuGet) =
           isCheckboxChecked (findCustomField t (passedQA_field cfg))"
  using assms
  by (auto simp: run_gate_def Let_def final_decision_fields final_decision_outcome recheck_fires_def)

lemma status_of_custom_fields: "status_of (t\<lparr>custom_fields := cfs\<rparr>) = status_of t"
  by (simp add: status_of_def)

lemma run_gate_second_fields:
  "run_gate pending cfg (answers t (t2\<lparr>custom_fields := cfs\<rparr>)) =
   run_gate pending cfg (answers t t2)"
proof -
  have a0: "answers t x 0 = Some t" and a1: "answers t x (Suc 0) = Some x" for x
    by (simp_all add: answers_def)
  show ?thesis by (simp add: run_gate_def a0 a1 Let_def status_of_custom_fields)
qed

lemma run_gate_two_calls:
  assumes "cuGet' 0 = cuGet 0" "cuGet' 1 = cuGet 1"
  shows "run_gate pending cfg cuGet' = run_gate pending cfg cuGet"
  unfolding run_gate_def assms by (rule refl)

lemma replace_runs_run_prefix:
  assumes "ws \<noteq> []" "\<forall>c \<in> set ws. p c" "r = [] \<or> \<not> p (hd r)"
  shows "replace_runs p x (ws @ r) = x @ replace_runs p x r"
proof -
  from assms(1) obtain w ws' where ws: "ws = w # ws'" by (cases ws) auto
  have "dropWhile p (ws' @ r) = dropWhile p r"
    using assms(2) ws by (simp add: dropWhile_append)
  also have "\<dots> = r" using assms(3) by (cases r) auto
  finally show ?thesis using assms(2) ws by simp
qed

lemma replace_runs_no_class:
  "\<forall>c \<in> set s. \<not> p c \<Longrightarrow> replace_runs p x s = s"
  by (induction s) auto

lemma replace_runs_append_no_class:
  "\<forall>c \<in> set a. \<not> p c \<Longrightarrow> replace_runs p x (a @ s) = a @ replace_runs p x s"
  by (induction a) auto

lemma pending_p1_normalized:
  assumes "pending_p1 s"
  shows "normalize_str s \<in> {''qa'', ''qadev'', ''qa dev''}"
proof -
  let ?l = "toLowerCase s"
  let ?rest = "drop 2 ?l"
  from assms have pre: "prefix ''qa'' ?l"
    and alt: "?rest = [] \<or> dropWhile is_space ?rest = ''(dev)''"
    by (auto simp: pending_p1_def Let_def startsWith_def)
  from pre have l: "?l = ''qa'' @ ?rest" by (auto simp: prefix_def)
  have qa: "\<forall>c \<in> set ''qa''. \<not> is_space c" by code_simp
  have dev: "\<forall>c \<in> set ''(dev)''. \<not> is_space c" by code_simp
  from alt show ?thesis
  proof
    assume "?rest = []"
    with l have "?l = ''qa''" by simp
    then have "normalize_str s = trim (remove_chars (\<lambda>c. \<not> (is_word c \<or> is_space c)) (replace_runs is_space '' '' ''qa''))"
      by (simp add: normalize_str_def)
    also have "\<dots> = ''qa''" by code_simp
    finally show ?thesis by simp
  next
    assume d: "dropWhile is_space ?rest = ''(dev)''"
    let ?ws = "takeWhile is_space ?rest"
    have rest: "?rest = ?ws @ ''(dev)''" using d takeWhile_dropWhile_id[of is_space ?rest] by simp
    have ws: "\<forall>c \<in> set ?ws. is_space c" by (auto dest: set_takeWhileD)
    show ?thesis
    proof (cases "?ws = []")
      case True
      with rest l have "?l = ''qa(dev)''" by simp
      then have "normalize_str s = trim (remove_chars (\<lambda>c. \<not> (is_word c \<or> is_space c)) (replace_runs is_space '' '' ''qa(dev)''))"
        by (simp add: normalize_str_def)
      also have "\<dots> = ''qadev''" by code_simp
      finally show ?thesis by simp
    next
      case False
      have hd: "''(dev)'' = [] \<or> \<not> is_space (hd ''(dev)'')" by code_simp
      have "replace_runs is_space '' '' ?l = ''qa'' @ replace_runs is_space '' '' (?ws @ ''(dev)'')"
        using l rest replace_runs_append_no_class[OF qa, of "'' ''" ?rest] by simp
      also have "\<dots> = ''qa'' @ '' '' @ replace_runs is_space '' '' ''(dev)''"
        using replace_runs_run_prefix[OF False ws hd] by simp
      also have "\<dots> = ''qa (dev)''" using replace_runs_no_class[OF dev] by simp
      finally have "normalize_str s = trim (remove_chars (\<lambda>c. \<not> (is_word c \<or> is_space c)) ''qa (dev)'')"
        by (simp add: normalize_str_def)
      also have "\<dots> = ''qa dev''" by code_simp
      finally show ?thesis by simp
    qed
  qed
qed

lemma pending_p2_normalized:
  "pending_p2 s \<longleftrightarrow> normalize_str s \<in> {''qa'', ''qa dev''}"
proof -
  have "normalize_str ''QA'' = ''qa''" "normalize_str ''QA (Dev)'' = ''qa dev''" by code_simp+
  then show ?thesis by (auto simp: pending_p2_def)
qed


text \<open>
  Claim C1. In both revisions of the gate (part_001, part_002 from line 647), for every
  configuration and every snapshot \<open>t\<close> of the work item, a run on a tracker that
  answers with \<open>t\<close> passes the gate if and only if the normalized status of \<open>t\<close>
  equals the normalized required status and the Passed-QA checkbox of \<open>t\<close> is
  checked. For any tracker, the run passes if and only if the status observed last (that
  of the second answer when the re-check fired, else that of the first) normalizes to
  the normalized required status and the checkbox of the first answer is checked.
\<close>

theorem gate_passes_iff:
  assumes "(run = run_gate_p1 \<and> pending = pending_p1) \<or> (run = run_gate_p2 \<and> pending = pending_p2)"
    and "cuGet 0 = Some t" and "cuGet 1 = Some t2"
  shows "(outcome (run cfg (steady t)) = GatePassed \<longleftrightarrow> pass_condition cfg t) \<and>
         (outcome (run cfg cuGet) = GatePassed \<longleftrightarrow>
            normalize_str (status_of (if recheck_fires pending cfg t then t2 else t)) =
              normalize_str (requiredStatus cfg) \<and>
            isCheckboxChecked (findCustomField t (passedQA_field cfg)))"
proof -
  from assms(1) have run: "run = run_gate pending"
    by (auto simp: run_gate_p1_def run_gate_p2_def)
  have "outcome (run_gate pending cfg cuGet) = GatePassed \<longleftrightarrow>
            normalize_str (status_of (if recheck_fires pending cfg t then t2 else t)) =
              normalize_str (requiredStatus cfg) \<and>
            isCheckboxChecked (findCustomField t (passedQA_field cfg))"
  proof (cases "recheck_fires pending cfg t")
    case True
    then show ?thesis
      using run_gate_fresh(2)[OF assms(2) True assms(3)] by (simp add: recheck_fires_def)
  next
    case False
    then show ?thesis using assms(2)
      by (auto simp: run_gate_def Let_def final_decision_outcome recheck_fires_def)
  qed
  then show ?thesis unfolding run by (simp add: run_gate_steady)
qed

text \<open>
  The example of claim C1: observed status \<^verbatim>\<open>Needs Approval (Dev)\<close>, required status
  \<^verbatim>\<open>needs approval (dev)\<close>, checkbox value \<^verbatim>\<open>true\<close>.
\<close>

theorem gate_passes_iff_witness:
  "pass_condition (example_config ''needs approval (dev)'')
     (example_task ''Needs Approval (Dev)'' (JBool True)) \<and>
   outcome (run_gate_p2 (example_config ''needs approval (dev)'')
              (steady (example_task ''Needs Approval (Dev)'' (JBool True)))) = GatePassed \<and>
   outcome (run_gate_p1 (example_config ''needs approval (dev)'')
              (steady (example_task ''Needs Approval (Dev)'' (JBool True)))) = GatePassed"
proof -
  let ?t = "example_task ''Needs Approval (Dev)'' (JBool True)"
  let ?cfg = "example_config ''needs approval (dev)''"
  have p: "pass_condition ?cfg ?t" by code_simp
  have s0: "steady ?t 0 = Some ?t" and s1: "steady ?t 1 = Some ?t" by (simp_all add: steady_def)
  from gate_passes_iff[of run_gate_p2 pending_p2 "steady ?t" ?t ?t ?cfg, OF _ s0 s1] p
  have a: "outcome (run_gate_p2 ?cfg (steady ?t)) = GatePassed" by simp
  from gate_passes_iff[of run_gate_p1 pending_p1 "steady ?t" ?t ?t ?cfg, OF _ s0 s1] p
  have b: "outcome (run_gate_p1 ?cfg (steady ?t)) = GatePassed" by simp
  from p a b show ?thesis by simp
qed

text \<open>
  Claim C3. As stated, with the decision recomputed from the fresh data, the claim
  fails: the re-check reads only the status of the second answer. With a first answer
  of status \<^verbatim>\<open>QA\<close> and a checked checkbox and a second answer of the required status
  and an unchecked checkbox, both revisions pass the gate, though neither answer
  satisfies the pass condition.
\<close>

theorem gate_recheck_keeps_first_checkbox:
  "outcome (run_gate_p1 (example_config ''Needs Approval (Dev)'')
              (answers (example_task ''QA'' (JBool True))
                       (example_task ''Needs Approval (Dev)'' (JBool False)))) = GatePassed \<and>
   outcome (run_gate_p2 (example_config ''Needs Approval (Dev)'')
              (answers (example_task ''QA'' (JBool True))
                       (example_task ''Needs Approval (Dev)'' (JBool False)))) = GatePassed \<and>
   \<not> pass_condition (example_config ''Needs Approval (Dev)'')
         (example_task ''Needs Approval (Dev)'' (JBool False)) \<and>
   \<not> pass_condition (example_config ''Needs Approval (Dev)'')
         (example_task ''QA'' (JBool True))"
  by code_simp

text \<open>
  Claim C3, amended. In both revisions a run calls \<^verbatim>\<open>cuGet\<close> at most twice, the second
  time exactly when the first snapshot fails the status test with the checkbox checked
  and a pending status, whose normalized form then is one of the pending labels; it
  waits exactly then, once, 1500 ms; it then reads the status, and only the status, of
  the second answer and compares it once with the required status, keeping the checkbox
  value of the first answer: the run passes if and only if the status of the second
  answer normalizes to the required one, whatever the custom fields of the second
  answer are; and the run depends on no further answer of the tracker.
\<close>

theorem gate_refetch_at_most_once:
  assumes "(run = run_gate_p1 \<and> pending = pending_p1 \<and> labels = {''qa'', ''qadev'', ''qa dev''}) \<or>
           (run = run_gate_p2 \<and> pending = pending_p2 \<and> labels = {''qa'', ''qa dev''})"
  shows "fetches (events (run cfg cuGet)) \<le> 2 \<and>
         (fetches (events (run cfg cuGet)) = 2 \<longleftrightarrow>
            (\<exists>t. cuGet 0 = Some t \<and> recheck_fires pending cfg t)) \<and>
         (\<forall>s. pending s \<longrightarrow> normalize_str s \<in> labels) \<and>
         waits (events (run cfg cuGet)) =
            (if fetches (events (run cfg cuGet)) = 2 then [1500] else []) \<and>
         (\<forall>t t2. cuGet 0 = Some t \<and> recheck_fires pending cfg t \<and> cuGet 1 = Some t2 \<longrightarrow>
            statusNow (run cfg cuGet) = status_of t2 \<and>
            passedQA (run cfg cuGet) = isCheckboxChecked (findCustomField t (passedQA_field cfg)) \<and>
            (outcome (run cfg cuGet) = GatePassed \<longleftrightarrow>
               normalize_str (status_of t2) = normalize_str (requiredStatus cfg))) \<and>
         (\<forall>t t2 cfs. run cfg (answers t (t2\<lparr>custom_fields := cfs\<rparr>)) = run cfg (answers t t2)) \<and>
         (\<forall>cuGet'. cuGet' 0 = cuGet 0 \<and> cuGet' 1 = cuGet 1 \<longrightarrow> run cfg cuGet' = run cfg cuGet)"
proof -
  from assms have run: "run = run_gate pending"
    by (auto simp: run_gate_p1_def run_gate_p2_def)
  from assms have labels: "\<forall>s. pending s \<longrightarrow> normalize_str s \<in> labels"
    using pending_p1_normalized pending_p2_normalized by auto
  show ?thesis
    unfolding run
    using run_gate_refetch[of pending cfg cuGet] labels
          run_gate_fresh[of cuGet _ pending cfg] run_gate_two_calls[of _ cuGet pending cfg]
          run_gate_second_fields[of pending cfg]
    by blast
qed

text \<open>
  The example of claim C3: status \<^verbatim>\<open>QA\<close>, required status
  \<^verbatim>\<open>Needs Approval (Dev)\<close>, checkbox checked: one re-fetch after one wait, and
  the gate fails when the status has not changed.
\<close>

theorem gate_refetch_at_most_once_witness:
  "recheck_fires pending_p2 (example_config ''Needs Approval (Dev)'') (example_task ''QA'' (JBool True)) \<and>
   fetches (events (run_gate_p2 (example_config ''Needs Approval (Dev)'')
                      (steady (example_task ''QA'' (JBool True))))) = 2 \<and>
   waits (events (run_gate_p2 (example_config ''Needs Approval (Dev)'')
                    (steady (example_task ''QA'' (JBool True))))) = [1500] \<and>
   outcome (run_gate_p2 (example_config ''Needs Approval (Dev)'')
              (steady (example_task ''QA'' (JBool True)))) = GateFailed"
proof -
  let ?t = "example_task ''QA'' (JBool True)"
  let ?cfg = "example_config ''Needs Approval (Dev)''"
  have f: "recheck_fires pending_p2 ?cfg ?t" by code_simp
  have s0: "steady ?t 0 = Some ?t" by (simp add: steady_def)
  have o: "outcome (run_gate_p2 ?cfg (steady ?t)) = GateFailed" by code_simp
  have rev: "(run_gate_p2 = run_gate_p1 \<and> pending_p2 = pending_p1 \<and>
              {''qa'', ''qa dev''} = {''qa'', ''qadev'', ''qa dev''}) \<or>
             (run_gate_p2 = run_gate_p2 \<and> pending_p2 = pending_p2 \<and>
              {''qa'', ''qa dev''} = {''qa'', ''qa dev''})"
    by (rule disjI2) (intro conjI refl)
  note T = gate_refetch_at_most_once[OF rev, of ?cfg "steady ?t"]
  have ex: "\<exists>t. steady ?t 0 = Some t \<and> recheck_fires pending_p2 ?cfg t"
    using s0 f by blast
  have two: "fetches (events (run_gate_p2 ?cfg (steady ?t))) = 2"
    using T[THEN conjunct2, THEN conjunct1] ex by blast
  have w: "waits (events (run_gate_p2 ?cfg (steady ?t))) = [1500]"
    using T[THEN conjunct2, THEN conjunct2, THEN conjunct2, THEN conjunct1]
    by (simp only: two refl if_True)
  from f two w o show ?thesis by blast
qed

subsection \<open>The dispatch endpoint\<close>

lemma trim_Nil: "trim [] = []"
  by (simp add: trim_def)

lemma respond_fields: "resp_status (respond c calls) = c" "github_calls (respond c calls) = calls"
  by (simp_all add: respond_def)

lemma handler_a_no_secret:
  assumes "trim (str_or (SHARED_DISPATCH_TOKEN e) []) = []"
  shows "resp_status (handler_a e gh req) \<in> {401, 500} \<and> github_calls (handler_a e gh req) = []"
  using assms by (auto simp: handler_a_def Let_def respond_fields split: option.splits)

lemma handler_b_no_secret:
  assumes "trim (str_or (SHARED_DISPATCH_TOKEN e) []) = []"
  shows "resp_status (handler_b e gh req) \<in> {401, 500} \<and> github_calls (handler_b e gh req) = []"
  using assms by (auto simp: handler_b_def Let_def respond_fields split: option.splits)

lemma handler_c_no_secret:
  assumes "\<not> truthy (SHARED_DISPATCH_TOKEN e)"
  shows "resp_status (handler_c e gh req) = 500 \<and> github_calls (handler_c e gh req) = []"
  using assms by (simp add: handler_c_def respond_fields)


text \<open>
  Claim C9. When \<^verbatim>\<open>SHARED_DISPATCH_TOKEN\<close> is not set or is the empty string, each of
  the three revisions of the handler answers every request with status 401 or 500 and
  does not call GitHub, whatever token the request provides (an empty one included) and
  whatever GitHub would have answered.
\<close>

theorem dispatch_needs_secret:
  assumes "SHARED_DISPATCH_TOKEN e = None \<or> SHARED_DISPATCH_TOKEN e = Some []"
  shows "resp_status (handler_a e gh req) \<in> {401, 500} \<and> github_calls (handler_a e gh req) = [] \<and>
         resp_status (handler_b e gh req) \<in> {401, 500} \<and> github_calls (handler_b e gh req) = [] \<and>
         resp_status (handler_c e gh req) \<in> {401, 500} \<and> github_calls (handler_c e gh req) = []"
proof -
  from assms have 1: "trim (str_or (SHARED_DISPATCH_TOKEN e) []) = []"
    by (auto simp: str_or_def trim_Nil)
  from assms have 2: "\<not> truthy (SHARED_DISPATCH_TOKEN e)"
    by (auto simp: truthy_def)
  show ?thesis
    using handler_a_no_secret[OF 1, of gh req] handler_b_no_secret[OF 1, of gh req]
          handler_c_no_secret[OF 2, of gh req]
    by simp
qed

text \<open>An empty secret and a request whose token is empty too.\<close>

theorem dispatch_needs_secret_witness:
  "resp_status (handler_a (example_env (Some [])) (GhStatus 204) (example_request (Some []))) \<in> {401, 500} \<and>
   github_calls (handler_a (example_env (Some [])) (GhStatus 204) (example_request (Some []))) = [] \<and>
   resp_status (handler_b (example_env (Some [])) (GhStatus 204) (example_request (Some []))) \<in> {401, 500} \<and>
   github_calls (handler_b (example_env (Some [])) (GhStatus 204) (example_request (Some []))) = [] \<and>
   resp_status (handler_c (example_env (Some [])) (GhStatus 204) (example_request (Some []))) \<in> {401, 500} \<and>
   github_calls (handler_c (example_env (Some [])) (GhStatus 204) (example_request (Some []))) = []"
proof -
  have "SHARED_DISPATCH_TOKEN (example_env (Some [])) = None \<or>
        SHARED_DISPATCH_TOKEN (example_env (Some [])) = Some []"
    by (simp add: example_env_def)
  then show ?thesis by (rule dispatch_needs_secret)
qed

subsection \<open>Spreadsheet selection\<close>

lemma find_filter: "find P (filter Q xs) = find (\<lambda>x. Q x \<and> P x) xs"
  by (induction xs) auto

lemma find_filter_True: "find (\<lambda>x. True) (filter Q xs) = find Q xs"
  by (induction xs) auto

lemma find_Some_set: "find P xs = Some x \<Longrightarrow> x \<in> set xs \<and> P x"
  by (induction xs) (auto split: if_splits)

lemma first_of_tiers_Some:
  "first_of_tiers tiers cands = Some x \<Longrightarrow> x \<in> set cands"
  by (induction tiers) (auto split: option.splits dest: find_Some_set)

lemma first_of_tiers_None:
  "first_of_tiers tiers cands = None \<longleftrightarrow> (\<forall>P \<in> set tiers. find P cands = None)"
  by (induction tiers) (auto split: option.splits)

text \<open>
  Both revisions of \<^verbatim>\<open>findExcelForTask\<close> are a selection by tiers over the entries
  that pass the type filter. That of src/sharepoint.js is the selection as the
  specification words it, with \<^verbatim>\<open>norm\<close> as the normalization and the extension taken
  off the normalized name; it selects nothing only when no entry passes the filter.
\<close>

lemma findExcelForTask_sp_tiers:
  "findExcelForTask_sp items taskTitle =
     spec_select (\<lambda>f. \<not> sp_isFolder f \<and> isExcel (sp_name f)) sp_name norm_str strip_xls_lower
       items taskTitle"
  by (simp add: findExcelForTask_sp_def spec_select_def Let_def find_filter find_filter_True
           split: option.splits)

lemma findExcelForTask_p0_tiers:
  "findExcelForTask_p0 items taskTitle =
     first_of_tiers
       [\<lambda>f. base_p0 (gi_name f) = normalize_str taskTitle,
        \<lambda>f. startsWith (base_p0 (gi_name f)) (normalize_str taskTitle @ '' ''),
        \<lambda>f. has_preview (gi_name f),
        \<lambda>f. True]
       (filter (\<lambda>it. isFile it \<and> isExcel (gi_name it)) items)"
proof (cases "filter (\<lambda>it. isFile it \<and> isExcel (gi_name it)) items")
  case Nil
  then show ?thesis by (simp add: findExcelForTask_p0_def)
next
  case (Cons e es)
  then show ?thesis
    by (simp add: findExcelForTask_p0_def Let_def split: option.splits)
qed

lemma spec_select_None:
  "spec_select ok name_of nf me entries title = None \<longleftrightarrow> (\<forall>f \<in> set entries. \<not> ok f)"
proof -
  have "find (\<lambda>f. True) (filter ok entries) = None \<longleftrightarrow> (\<forall>f \<in> set entries. \<not> ok f)"
    by (auto simp: find_None_iff)
  moreover have "find (\<lambda>f. True) (filter ok entries) = None \<Longrightarrow>
                 find P (filter ok entries) = None" for P
    by (simp add: find_None_iff)
  ultimately show ?thesis
    unfolding spec_select_def first_of_tiers_None by auto
qed

lemma isExcel_iff:
  "isExcel n \<longleftrightarrow> (\<exists>stem ext. n = stem @ ext \<and> (toLowerCase ext = ''.xls'' \<or> toLowerCase ext = ''.xlsx''))"
proof
  assume "isExcel n"
  then obtain a e where ae: "toLowerCase n = a @ e" and e: "e = ''.xls'' \<or> e = ''.xlsx''"
    by (auto simp: isExcel_def Let_def endsWith_def suffix_def)
  from ae obtain stem ext where "n = stem @ ext" "toLowerCase ext = e"
    unfolding toLowerCase_def by (auto simp: map_eq_append_conv)
  with e show "\<exists>stem ext. n = stem @ ext \<and> (toLowerCase ext = ''.xls'' \<or> toLowerCase ext = ''.xlsx'')"
    by blast
next
  assume "\<exists>stem ext. n = stem @ ext \<and> (toLowerCase ext = ''.xls'' \<or> toLowerCase ext = ''.xlsx'')"
  then show "isExcel n"
    by (auto simp: isExcel_def Let_def endsWith_def suffix_def toLowerCase_def)
qed

text \<open>
  Claim C10. An entry that \<^verbatim>\<open>findExcelForTask\<close> returns is an entry of the listing,
  is a file, and its name ends in \<^verbatim>\<open>.xls\<close> or \<^verbatim>\<open>.xlsx\<close> in any letter case, in
  both revisions and whatever tier selected it. In src/sharepoint.js a file is an entry
  whose \<^verbatim>\<open>isFolder\<close> is false; in part_000 it is an entry with a \<^verbatim>\<open>file\<close> facet,
  which is no folder in a listing where no entry has both facets.
\<close>

theorem selected_is_spreadsheet_file:
  "(findExcelForTask_sp items title = Some f \<longrightarrow>
      f \<in> set items \<and> \<not> sp_isFolder f \<and> isExcel (sp_name f)) \<and>
   (findExcelForTask_p0 gitems title = Some g \<longrightarrow>
      g \<in> set gitems \<and> isFile g \<and> isExcel (gi_name g) \<and>
      ((\<forall>it \<in> set gitems. \<not> (isFile it \<and> isFolder it)) \<longrightarrow> \<not> isFolder g)) \<and>
   (isExcel n \<longleftrightarrow>
      (\<exists>stem ext. n = stem @ ext \<and> (toLowerCase ext = ''.xls'' \<or> toLowerCase ext = ''.xlsx'')))"
proof (intro conjI impI)
  assume "findExcelForTask_sp items title = Some f"
  then have "f \<in> set (filter (\<lambda>f. \<not> sp_isFolder f \<and> isExcel (sp_name f)) items)"
    unfolding findExcelForTask_sp_tiers spec_select_def by (rule first_of_tiers_Some)
  then show "f \<in> set items" "\<not> sp_isFolder f" "isExcel (sp_name f)" by auto
next
  assume "findExcelForTask_p0 gitems title = Some g"
  then have g: "g \<in> set (filter (\<lambda>it. isFile it \<and> isExcel (gi_name it)) gitems)"
    unfolding findExcelForTask_p0_tiers by (rule first_of_tiers_Some)
  then show "g \<in> set gitems" "isFile g" "isExcel (gi_name g)" by auto
  assume "\<forall>it \<in> set gitems. \<not> (isFile it \<and> isFolder it)"
  with g show "\<not> isFolder g" by auto
next
  show "isExcel n \<longleftrightarrow>
      (\<exists>stem ext. n = stem @ ext \<and> (toLowerCase ext = ''.xls'' \<or> toLowerCase ext = ''.xlsx''))"
    by (rule isExcel_iff)
qed

text \<open>
  The last-resort tier at work: \<^verbatim>\<open>random.xlsx\<close> for the title \<^verbatim>\<open>Nonexistent\<close>, and
  a folder named like a spreadsheet that is passed over.
\<close>

theorem selected_is_spreadsheet_file_witness:
  "findExcelForTask_sp [sp_file ''notes.txt'', sp_file ''random.xlsx''] ''Nonexistent'' = Some (sp_file ''random.xlsx'') \<and>
   \<not> sp_isFolder (sp_file ''random.xlsx'') \<and> isExcel (sp_name (sp_file ''random.xlsx'')) \<and>
   findExcelForTask_p0 [graph_folder ''Task.xlsx'', graph_file ''random.XLS''] ''Nonexistent'' = Some (graph_file ''random.XLS'') \<and>
   isFile (graph_file ''random.XLS'') \<and> isExcel (gi_name (graph_file ''random.XLS'')) \<and>
   \<not> isFolder (graph_file ''random.XLS'')"
proof -
  let ?items = "[sp_file ''notes.txt'', sp_file ''random.xlsx'']"
  let ?gitems = "[graph_folder ''Task.xlsx'', graph_file ''random.XLS'']"
  have a: "findExcelForTask_sp ?items ''Nonexistent'' = Some (sp_file ''random.xlsx'')"
    by code_simp
  have b: "findExcelForTask_p0 ?gitems ''Nonexistent'' = Some (graph_file ''random.XLS'')"
    by code_simp
  have c: "\<forall>it \<in> set ?gitems. \<not> (isFile it \<and> isFolder it)"
    by code_simp
  from selected_is_spreadsheet_file[of ?items "''Nonexistent''" "sp_file ''random.xlsx''"
         ?gitems "graph_file ''random.XLS''"] a b c
  show ?thesis by blast
qed

text \<open>
  Claim C2. \<^verbatim>\<open>findExcelForTask\<close> of src/sharepoint.js is the selection of the claim
  (\<open>findExcelForTask_sp_tiers\<close>, \<open>spec_select_None\<close>). That of part_000 takes the
  extension off with \<^verbatim>\<open>/\.(xlsx?|XLSX?)$/\<close>, which misses a mixed-case extension
  that the type filter \<^verbatim>\<open>/\.xlsx?$/i\<close> lets pass: for the listing
  \<^verbatim>\<open>preview.xlsx\<close>, \<^verbatim>\<open>Task A.Xlsx\<close> and the title \<^verbatim>\<open>Task A\<close> it returns the
  preview file, where the exact match is \<^verbatim>\<open>Task A.Xlsx\<close>, which src/sharepoint.js
  returns.
\<close>

theorem findExcelForTask_p0_mixed_case_extension:
  "map_option gi_name
     (findExcelForTask_p0 [graph_file ''preview.xlsx'', graph_file ''Task A.Xlsx''] ''Task A'') =
     Some ''preview.xlsx'' \<and>
   map_option sp_name
     (findExcelForTask_sp [sp_file ''preview.xlsx'', sp_file ''Task A.Xlsx''] ''Task A'') =
     Some ''Task A.Xlsx''"
  by code_simp

text \<open>The tie-break example of the specification, in both revisions.\<close>

lemma findExcelForTask_exact_first:
  "map_option sp_name
     (findExcelForTask_sp
        [sp_file ''Task A.xlsx'', sp_file ''Task A - v2.xlsx'', sp_file ''preview-notes.xlsx'']
        ''Task A'') = Some ''Task A.xlsx'' \<and>
   map_option gi_name
     (findExcelForTask_p0
        [graph_file ''Task A.xlsx'', graph_file ''Task A - v2.xlsx'', graph_file ''preview-notes.xlsx'']
        ''Task A'') = Some ''Task A.xlsx''"
  by code_simp

subsection \<open>Link extraction\<close>

lemma set_foldl_set_add: "set (foldl set_add a xs) = set a \<union> set xs"
  by (induction xs arbitrary: a) (auto simp: set_add_def)

lemma distinct_foldl_set_add: "distinct a \<Longrightarrow> distinct (foldl set_add a xs)"
  by (induction xs arbitrary: a) (auto simp: set_add_def)

lemma foldl_set_add_concat:
  "foldl (\<lambda>links x. foldl set_add links (f x)) a xs = foldl set_add a (concat (map f xs))"
  by (induction xs arbitrary: a) auto

lemma first_occurrences_snoc:
  "first_occurrences (xs @ [x]) = first_occurrences xs @ (if x \<in> set xs then [] else [x])"
proof -
  have "filter (\<lambda>i. (xs @ [x]) ! i \<notin> set (take i (xs @ [x]))) [0..<length xs] =
        filter (\<lambda>i. xs ! i \<notin> set (take i xs)) [0..<length xs]"
    by (rule filter_cong) (auto simp: nth_append)
  moreover have "map (\<lambda>i. (xs @ [x]) ! i) (filter (\<lambda>i. xs ! i \<notin> set (take i xs)) [0..<length xs]) =
                 map (\<lambda>i. xs ! i) (filter (\<lambda>i. xs ! i \<notin> set (take i xs)) [0..<length xs])"
    by (rule map_cong) (auto simp: nth_append)
  ultimately show ?thesis by (simp add: first_occurrences_def)
qed

lemma new_Set_snoc: "new_Set (xs @ [x]) = set_add (new_Set xs) x"
  by (simp add: new_Set_def)

lemma set_new_Set: "set (new_Set xs) = set xs"
  by (simp add: new_Set_def set_foldl_set_add)

lemma distinct_new_Set: "distinct (new_Set xs)"
  by (simp add: new_Set_def distinct_foldl_set_add)

lemma new_Set_first_occurrences: "new_Set xs = first_occurrences xs"
proof (induction xs rule: rev_induct)
  case Nil
  then show ?case by (simp add: new_Set_def first_occurrences_def)
next
  case (snoc x xs)
  have "new_Set (xs @ [x]) = (if x \<in> set xs then new_Set xs else new_Set xs @ [x])"
    by (simp add: new_Set_snoc set_add_def set_new_Set)
  also have "\<dots> = first_occurrences (xs @ [x])"
    by (simp add: first_occurrences_snoc snoc.IH)
  finally show ?case .
qed

lemma foldl_set_add_concat_pair:
  "foldl (\<lambda>links (n, ws). foldl set_add links (f n ws)) a xs =
   foldl set_add a (concat (map (\<lambda>(n, ws). f n ws) xs))"
  by (induction xs arbitrary: a) auto

lemma extract_sp_new_Set:
  "extractPreviewLinksFromXlsx_sp csv wb = new_Set (discovered_sp csv wb)"
  unfolding extractPreviewLinksFromXlsx_sp_def discovered_sp_def new_Set_def
  by (rule foldl_set_add_concat_pair)

lemma extract_p0_new_Set:
  "extractPreviewLinksFromXlsx_p0 wb = new_Set (discovered_p0 wb)"
  by (auto simp: extractPreviewLinksFromXlsx_p0_def discovered_p0_def new_Set_def foldl_set_add_concat
           split: option.splits)


text \<open>
  A match of the preview pattern is not empty and holds no whitespace and no closing
  parenthesis, so \<^verbatim>\<open>trim\<close> leaves it as it is.
\<close>

lemma is_space_not_word: "is_space c \<Longrightarrow> \<not> is_word c"
  by (auto simp: is_space_def is_word_def Let_def)

lemma tok_char_lower: "tok_char (lower_char c) = tok_char c"
proof -
  have *: "\<And>d. d = CHR '')'' \<longleftrightarrow> code_of d = 41"
    using code_of_eq_iff[of _ "CHR '')''"] by (simp add: code_of_def)
  show ?thesis unfolding tok_char_def is_space_lower * by (auto simp: code_of_lower)
qed

lemma ci_prefix_iff:
  "ci_prefix pat s \<longleftrightarrow> length pat \<le> length s \<and> toLowerCase (take (length pat) s) = pat"
  by (induction pat s rule: ci_prefix.induct) (auto simp: toLowerCase_def)

lemma ci_prefix_length: "ci_prefix pat s \<Longrightarrow> length pat \<le> length s"
  by (simp add: ci_prefix_iff)

lemma ci_prefix_chars:
  assumes "ci_prefix pat s" "\<forall>c \<in> set pat. tok_char c"
  shows "\<forall>c \<in> set (take (length pat) s). tok_char c"
proof
  fix c assume "c \<in> set (take (length pat) s)"
  then have "lower_char c \<in> set (toLowerCase (take (length pat) s))"
    by (auto simp: toLowerCase_def)
  with assms have "tok_char (lower_char c)" by (simp add: ci_prefix_iff)
  then show "tok_char c" by (simp add: tok_char_lower)
qed

lemma scheme_len_cases:
  assumes "scheme_len s = Some k"
  shows "0 < k \<and> k \<le> length s \<and> (\<forall>c \<in> set (take k s). tok_char c)"
proof -
  have t8: "\<forall>c \<in> set ''https://''. tok_char c" by code_simp
  have t7: "\<forall>c \<in> set ''http://''. tok_char c" by code_simp
  from assms consider "k = 8" "ci_prefix ''https://'' s" | "k = 7" "ci_prefix ''http://'' s"
    by (auto simp: scheme_len_def split: if_splits)
  then show ?thesis
  proof cases
    case 1
    have l: "length ''https://'' = 8" by simp
    from ci_prefix_length[OF 1(2)] ci_prefix_chars[OF 1(2) t8] 1(1)
    show ?thesis by (simp only: l) simp
  next
    case 2
    have l: "length ''http://'' = 7" by simp
    from ci_prefix_length[OF 2(2)] ci_prefix_chars[OF 2(2) t7] 2(1)
    show ?thesis by (simp only: l) simp
  qed
qed

lemma match_here_Some:
  assumes "match_here s = Some m"
  shows "m \<noteq> [] \<and> prefix m s \<and> (\<forall>c \<in> set m. tok_char c)"
proof -
  from assms obtain k c tok where k: "scheme_len s = Some k"
    and tok: "takeWhile tok_char (drop k s) = c # tok" and m: "m = take k s @ c # tok"
    by (auto simp: match_here_def split: option.splits list.splits if_splits)
  from scheme_len_cases[OF k] have sch: "\<forall>c \<in> set (take k s). tok_char c" by simp
  have "\<forall>c \<in> set (c # tok). tok_char c"
    using tok set_takeWhileD[of _ tok_char "drop k s"] by metis
  with sch m have chars: "\<forall>c \<in> set m. tok_char c" by auto
  have "prefix (c # tok) (drop k s)"
    using tok by (metis takeWhile_dropWhile_id prefixI)
  then have "prefix (take k s @ c # tok) (take k s @ drop k s)" by (simp only: same_prefix_prefix)
  then have "prefix m s" using m by simp
  with chars m show ?thesis by simp
qed








text \<open>
  Matching across a separator: no match reaches over a whitespace character, so the
  matches of two texts joined by one are the matches of the first followed by those of
  the second.
\<close>

lemma ci_prefix_sep:
  assumes sep: "is_space sep" and pat: "\<forall>c \<in> set pat. \<not> is_space c"
  shows "ci_prefix pat (a @ sep # b) = ci_prefix pat a"
proof (cases "length pat \<le> length a")
  case True
  then show ?thesis by (simp add: ci_prefix_iff)
next
  case False
  then have short: "length a < length pat" by simp
  have "\<not> ci_prefix pat a"
  proof
    assume "ci_prefix pat a"
    from ci_prefix_length[OF this] short show False by simp
  qed
  moreover have "\<not> ci_prefix pat (a @ sep # b)"
  proof
    assume "ci_prefix pat (a @ sep # b)"
    then have eq: "toLowerCase (take (length pat) (a @ sep # b)) = pat" by (simp add: ci_prefix_iff)
    from short obtain n where n: "length pat - length a = Suc n" by (cases "length pat - length a") auto
    have "take (length pat) (a @ sep # b) = a @ sep # take n b" using short n by simp
    then have "lower_char sep \<in> set pat" using eq by (auto simp: toLowerCase_def)
    with pat have "\<not> is_space (lower_char sep)" by blast
    with sep show False by (simp add: is_space_lower)
  qed
  ultimately show ?thesis by simp
qed

lemma scheme_len_sep: "is_space sep \<Longrightarrow> scheme_len (a @ sep # b) = scheme_len a"
proof -
  assume sep: "is_space sep"
  have t8: "\<forall>c \<in> set ''https://''. \<not> is_space c" by code_simp
  have t7: "\<forall>c \<in> set ''http://''. \<not> is_space c" by code_simp
  show ?thesis
    unfolding scheme_len_def ci_prefix_sep[OF sep t8] ci_prefix_sep[OF sep t7] by (rule refl)
qed

lemma match_here_sep:
  assumes sep: "is_space sep"
  shows "match_here (a @ sep # b) = match_here a"
proof (cases "scheme_len a")
  case None
  then show ?thesis by (simp add: match_here_def scheme_len_sep[OF sep])
next
  case (Some k)
  from scheme_len_cases[OF Some] have k: "k \<le> length a" by simp
  have nt: "\<not> tok_char sep" using sep by (simp add: tok_char_def)
  have "takeWhile tok_char (drop k a @ sep # b) = takeWhile tok_char (drop k a)"
    using nt by (auto simp: takeWhile_append takeWhile_eq_all_conv[THEN iffD2])
  with k Some show ?thesis
    by (simp add: match_here_def scheme_len_sep[OF sep] split: list.splits)
qed

lemma match_here_sep_head: "is_space sep \<Longrightarrow> match_here (sep # b) = None"
  using match_here_sep[of sep "[]" b] by (simp add: match_here_def scheme_len_def ci_prefix_iff toLowerCase_def)

lemma scan_Nil: "scan k pw [] = []"
  by simp

lemma scan_sep:
  assumes sep: "is_space sep"
  shows "k \<le> length a \<Longrightarrow> scan k pw (a @ sep # b) = scan k pw a @ scan 0 False b"
proof (induction a arbitrary: k pw)
  case Nil
  then show ?case
    using sep by (simp add: match_here_sep_head is_space_not_word)
next
  case (Cons c cs)
  show ?case
  proof (cases "0 < k")
    case True
    with Cons.prems have "k - 1 \<le> length cs" by simp
    from Cons.IH[OF this] True show ?thesis by simp
  next
    case k0: False
    show ?thesis
    proof (cases pw)
      case True
      with k0 Cons.IH[of 0] show ?thesis by simp
    next
      case False
      have mh: "match_here (c # cs @ sep # b) = match_here (c # cs)"
        using match_here_sep[OF sep, of "c # cs" b] by simp
      show ?thesis
      proof (cases "match_here (c # cs)")
        case None
        with k0 False mh Cons.IH[of 0] show ?thesis by simp
      next
        case (Some m)
        from match_here_Some[OF Some] have "m \<noteq> []" "prefix m (c # cs)" by auto
        then have "length m - 1 \<le> length cs"
          by (metis One_nat_def Suc_pred length_Cons length_greater_0_conv not_less_eq_eq prefix_length_le)
        from Cons.IH[OF this] k0 False mh Some show ?thesis by simp
      qed
    qed
  qed
qed

lemma match_all_sep:
  "is_space sep \<Longrightarrow> match_all (a @ sep # b) = match_all a @ match_all b"
  unfolding match_all_def by (rule scan_sep) simp_all

lemma match_all_join:
  "is_space sep \<Longrightarrow> match_all (join [sep] xs) = concat (map match_all xs)"
proof (induction "[sep]" xs rule: join.induct)
  case 1
  then show ?case by (simp add: match_all_def)
next
  case (2 x)
  then show ?case by simp
next
  case (3 x y ys)
  then show ?case by (simp add: match_all_sep)
qed

lemma new_Set_repeat:
  assumes "u \<in> set a"
  shows "new_Set (a @ u # zs) = new_Set (a @ zs)"
proof -
  have "set_add (new_Set a) u = new_Set a" using assms by (simp add: set_add_def set_new_Set)
  then show ?thesis by (simp add: new_Set_def)
qed

lemma new_Set_idem: "new_Set (new_Set xs) = new_Set xs"
proof -
  have "distinct ys \<Longrightarrow> foldl set_add a ys = a @ filter (\<lambda>y. y \<notin> set a) ys" for a ys :: "string list"
    by (induction ys arbitrary: a) (auto simp: set_add_def intro: filter_cong)
  from this[of "new_Set xs" "[]"] show ?thesis by (simp add: new_Set_def distinct_new_Set[unfolded new_Set_def])
qed







text \<open>
  Claim C6. The links that either revision of \<^verbatim>\<open>extractPreviewLinksFromXlsx\<close>
  returns, and the links that the final \<^verbatim>\<open>Array.from(new Set(previewLinks))\<close> of
  \<^verbatim>\<open>run\<close> hands to the comment, are the discovered links at their first occurrences:
  no string twice, compared exactly, every discovered link present, in the order of
  first discovery; a link discovered a second time changes nothing. The posted comment
  is the banner, if any, and \<^verbatim>\<open>buildComment\<close> of these first occurrences.
\<close>

theorem links_first_seen_order:
  "extractPreviewLinksFromXlsx_sp sheet_to_csv wb = first_occurrences (discovered_sp sheet_to_csv wb) \<and>
   extractPreviewLinksFromXlsx_p0 wb = first_occurrences (discovered_p0 wb) \<and>
   new_Set previewLinks = first_occurrences previewLinks \<and>
   compose_and_post cfg taskName previewLinks images mentionIds =
     compose_and_post cfg taskName (first_occurrences previewLinks) images mentionIds \<and>
   distinct (first_occurrences (xs :: string list)) \<and>
   set (first_occurrences xs) = set xs \<and>
   first_occurrences (xs @ u # ys @ u # zs) = first_occurrences (xs @ u # ys @ zs) \<and>
   comment_text (compose_and_post cfg taskName previewLinks images mentionIds) =
     (if commentMode cfg = ''draft'' \<and> draft_addBanner cfg
      then draft_bannerText cfg @ nl @ nl else []) @
     buildComment taskName (first_occurrences previewLinks) images mentionIds
       (commentMode cfg \<noteq> ''draft'' \<and> final_includeMentions cfg)"
proof (intro conjI)
  show "comment_text (compose_and_post cfg taskName previewLinks images mentionIds) =
     (if commentMode cfg = ''draft'' \<and> draft_addBanner cfg
      then draft_bannerText cfg @ nl @ nl else []) @
     buildComment taskName (first_occurrences previewLinks) images mentionIds
       (commentMode cfg \<noteq> ''draft'' \<and> final_includeMentions cfg)"
    by (simp add: compose_and_post_def Let_def new_Set_first_occurrences)
  show "compose_and_post cfg taskName previewLinks images mentionIds =
     compose_and_post cfg taskName (first_occurrences previewLinks) images mentionIds"
    by (simp add: compose_and_post_def new_Set_first_occurrences[symmetric] new_Set_idem)
  show "first_occurrences (xs @ u # ys @ u # zs) = first_occurrences (xs @ u # ys @ zs)"
    using new_Set_repeat[of u "xs @ u # ys" zs] by (simp add: new_Set_first_occurrences)
qed (simp_all add: extract_sp_new_Set extract_p0_new_Set new_Set_first_occurrences[symmetric]
       distinct_new_Set set_new_Set)

text \<open>The first link is discovered twice and returned once, at its first place.\<close>

theorem links_first_seen_order_witness:
  "extractPreviewLinksFromXlsx_p0 (example_workbook ''Preview Links'') = [example_link, example_link2] \<and>
   discovered_p0 (example_workbook ''Preview Links'') = [example_link, example_link2, example_link]"
proof -
  let ?wb = "example_workbook ''Preview Links''"
  have d: "discovered_p0 ?wb = [example_link, example_link2, example_link]" by code_simp
  have "extractPreviewLinksFromXlsx_p0 ?wb = first_occurrences (discovered_p0 ?wb)"
    using links_first_seen_order[where wb = ?wb] by blast
  also have "\<dots> = [example_link, example_link2]" unfolding d by code_simp
  finally show ?thesis using d by blast
qed

subsection \<open>Composing the comment\<close>

lemma join_Cons: "xs \<noteq> [] \<Longrightarrow> join sep (x # xs) = x @ sep @ join sep xs"
  by (cases xs) auto

lemma rest_lines_not_Nil: "rest_lines taskName previewLinks images \<noteq> []"
  by (simp add: rest_lines_def)

lemma buildComment_structure:
  "buildComment taskName previewLinks images mentionIds includeMentions =
     (if includeMentions \<and> mentionIds \<noteq> [] then formatMentions mentionIds @ nl @ nl else []) @
     join nl (rest_lines taskName previewLinks images)"
  by (simp add: buildComment_def comment_lines_def join_Cons rest_lines_not_Nil)

lemma buildComment_v1_as_final:
  "buildComment_v1 taskName previewLinks images mentionIds =
     buildComment taskName previewLinks images mentionIds True"
  by (simp add: buildComment_v1_def buildComment_def comment_lines_def)

text \<open>
  Claim C7. The comment that \<^verbatim>\<open>run\<close> composes is the banner (in draft mode, when
  configured), then the mention line, then the lines of the title, the links and the
  images; the mention line is there exactly when the mode is not draft,
  \<^verbatim>\<open>final.includeMentions\<close> is set and the list of mention ids is not empty, and then
  it is the first line. In draft mode the list \<^verbatim>\<open>lines\<close> of \<^verbatim>\<open>buildComment\<close> has no
  mention line, and the posted comment is the same for every list of mention ids and
  either value of the flag. \<^verbatim>\<open>buildComment\<close> of the first \<^verbatim>\<open>post-qa.js\<close>, which has
  no modes, is that of the later revisions with mentions included.
\<close>

theorem draft_has_no_mentions:
  "comment_text (compose_and_post cfg taskName previewLinks images mentionIds) =
     (if commentMode cfg = ''draft'' \<and> draft_addBanner cfg
      then draft_bannerText cfg @ nl @ nl else []) @
     (if commentMode cfg \<noteq> ''draft'' \<and> final_includeMentions cfg \<and> mentionIds \<noteq> []
      then formatMentions mentionIds @ nl @ nl else []) @
     join nl (rest_lines taskName (new_Set previewLinks) images) \<and>
   (commentMode cfg = ''draft'' \<longrightarrow>
      comment_lines taskName (new_Set previewLinks) images mentionIds
        (commentMode cfg \<noteq> ''draft'' \<and> final_includeMentions cfg) =
        rest_lines taskName (new_Set previewLinks) images \<and>
      compose_and_post cfg taskName previewLinks images mentionIds =
        compose_and_post cfg taskName previewLinks images [] \<and>
      compose_and_post (cfg\<lparr>final_includeMentions := flag\<rparr>) taskName previewLinks images otherIds =
        compose_and_post cfg taskName previewLinks images mentionIds) \<and>
   (commentMode cfg \<noteq> ''draft'' \<and> final_includeMentions cfg \<and> mentionIds \<noteq> [] \<longrightarrow>
      comment_lines taskName (new_Set previewLinks) images mentionIds
        (commentMode cfg \<noteq> ''draft'' \<and> final_includeMentions cfg) =
        (formatMentions mentionIds @ nl) # rest_lines taskName (new_Set previewLinks) images) \<and>
   buildComment_v1 taskName previewLinks images mentionIds =
     buildComment taskName previewLinks images mentionIds True"
  by (simp add: compose_and_post_def Let_def buildComment_structure buildComment_v1_as_final
        comment_lines_def)

text \<open>
  Draft mode with \<^verbatim>\<open>final.includeMentions\<close> set and two mention ids: the comment is the
  banner and the body and has no mention; the same in final mode starts with the
  mention line.
\<close>

theorem draft_has_no_mentions_witness:
  "commentMode (example_compose_config ''draft'') = ''draft'' \<and>
   final_includeMentions (example_compose_config ''draft'') \<and>
   compose_and_post (example_compose_config ''draft'') ''CF-123'' [] [] [''4711'', ''4712''] =
     compose_and_post (example_compose_config ''draft'') ''CF-123'' [] [] [] \<and>
   comment_text (compose_and_post (example_compose_config ''draft'') ''CF-123'' [] []
                   [''4711'', ''4712'']) =
     ''DRAFT - Review before sending'' @ nl @ nl @
     ''**QA Passed '' @ arrow @ '' Preview Links for _CF-123_**'' @ nl @ nl @
     ''_No preview links found._'' @ nl @ nl @ ''_No QA images found._'' \<and>
   comment_text (compose_and_post (example_compose_config ''final'') ''CF-123'' [] []
                   [''4711'', ''4712'']) =
     ''<@4711> <@4712>'' @ nl @ nl @
     ''**QA Passed '' @ arrow @ '' Preview Links for _CF-123_**'' @ nl @ nl @
     ''_No preview links found._'' @ nl @ nl @ ''_No QA images found._''"
proof -
  let ?d = "example_compose_config ''draft''"
  let ?f = "example_compose_config ''final''"
  have d: "commentMode ?d = ''draft''" and f: "final_includeMentions ?d"
    by (simp_all add: example_compose_config_def)
  note T = draft_has_no_mentions[of ?d "''CF-123''" "[]" "[]" "[''4711'', ''4712'']"]
  have same: "compose_and_post ?d ''CF-123'' [] [] [''4711'', ''4712''] =
              compose_and_post ?d ''CF-123'' [] [] []"
    using T d by blast
  have body: "join nl (rest_lines ''CF-123'' (new_Set []) []) =
     ''**QA Passed '' @ arrow @ '' Preview Links for _CF-123_**'' @ nl @ nl @
     ''_No preview links found._'' @ nl @ nl @ ''_No QA images found._''"
    by (simp add: rest_lines_def new_Set_def)
  have fm: "formatMentions [''4711'', ''4712''] = ''<@4711> <@4712>''"
    by (simp add: formatMentions_def)
  have td: "comment_text (compose_and_post ?d ''CF-123'' [] [] [''4711'', ''4712'']) =
     ''DRAFT - Review before sending'' @ nl @ nl @
     ''**QA Passed '' @ arrow @ '' Preview Links for _CF-123_**'' @ nl @ nl @
     ''_No preview links found._'' @ nl @ nl @ ''_No QA images found._''"
    unfolding T[THEN conjunct1] body by (simp add: example_compose_config_def)
  have tf: "comment_text (compose_and_post ?f ''CF-123'' [] [] [''4711'', ''4712'']) =
     ''<@4711> <@4712>'' @ nl @ nl @
     ''**QA Passed '' @ arrow @ '' Preview Links for _CF-123_**'' @ nl @ nl @
     ''_No preview links found._'' @ nl @ nl @ ''_No QA images found._''"
    unfolding draft_has_no_mentions[of ?f "''CF-123''" "[]" "[]" "[''4711'', ''4712'']", THEN conjunct1]
              body fm
    by (simp add: example_compose_config_def)
  from d f same td tf show ?thesis by blast
qed

end
